theory Spec2Isabelle
  imports Complex_Main "HOL-Library.Log_Nat" "HOL-Library.Word" "HOL-Library.Sublist"
begin

section \<open>JavaScript numbers\<close>

text \<open>
  The recorder computes with JavaScript numbers, that is IEEE-754 binary64 values:
  \<open>duration\<close> ranges over \<open>0 to Infinity\<close>, \<open>1 / frameRate\<close> may divide by zero,
  \<open>duration * frameRate\<close> may be \<open>NaN\<close>, and every sum, product and quotient is rounded.
  A number is a finite double, one of the two zeros, one of the two infinities, or
  \<open>NaN\<close>. \<open>Fin q\<close> is the finite double of value \<open>q\<close>, the positive zero when \<open>q\<close> is
  0; \<open>NZero\<close> is the negative zero. Every result of an operation is a double. The
  numbers a caller passes in are not restricted: a statement about every \<open>Fin q\<close>
  covers every double.
\<close>

datatype jsnum = Fin rat | NZero | PInf | NInf | NaN

subsection \<open>Rounding to the nearest double\<close>

text \<open>The nearest integer, the even one of the two when they are equally near.\<close>

definition round_half_even :: "rat \<Rightarrow> int" where
  "round_half_even q =
     (let f = \<lfloor>q\<rfloor>; d = q - of_int f
      in if d < 1 / 2 then f else if 1 / 2 < d then f + 1 else if even f then f else f + 1)"

text \<open>
  The binary exponent of a positive number \<open>a\<close>: the \<open>e\<close> with
  \<open>2 ^ e \<le> a < 2 ^ (e + 1)\<close>, read off the bit length of the integer part of \<open>a\<close>, or
  of \<open>1 / a\<close> when \<open>a\<close> is below 1.
\<close>

definition exponent :: "rat \<Rightarrow> int" where
  "exponent a = (if 1 \<le> a then bitlen \<lfloor>a\<rfloor> - 1 else - bitlen (\<lceil>1 / a\<rceil> - 1))"

definition signed_zero :: "bool \<Rightarrow> jsnum" where
  "signed_zero negative = (if negative then NZero else Fin 0)"

definition infinity :: "bool \<Rightarrow> jsnum" where
  "infinity negative = (if negative then NInf else PInf)"

text \<open>
  The double nearest to an exact result \<open>x\<close>, ties to even: 53 significant bits, the
  exponent no lower than -1022 (below it the spacing stays \<open>2 ^ -1074\<close>: subnormal
  numbers), a magnitude of \<open>2 ^ 1024\<close> or more after rounding overflows to an infinity,
  and a result that rounds to nothing is a zero of the sign of \<open>x\<close>.
\<close>

definition round_double :: "rat \<Rightarrow> jsnum" where
  "round_double x =
     (let a = \<bar>x\<bar>;
          e = max (exponent a) (- 1022);
          ulp = 2 powi (e - 52);
          y = of_int (round_half_even (a / ulp)) * ulp
      in if x = 0 then Fin 0
         else if 2 powi 1024 \<le> y then infinity (x < 0)
         else if y = 0 then signed_zero (x < 0)
         else Fin (if x < 0 then - y else y))"

subsection \<open>Arithmetic and comparison\<close>

definition is_zero :: "jsnum \<Rightarrow> bool" where
  "is_zero x \<longleftrightarrow> x = Fin 0 \<or> x = NZero"

definition is_infinite :: "jsnum \<Rightarrow> bool" where
  "is_infinite x \<longleftrightarrow> x = PInf \<or> x = NInf"

text \<open>The sign bit, and the value of a finite number.\<close>

fun is_negative :: "jsnum \<Rightarrow> bool" where
  "is_negative (Fin q) = (q < 0)"
| "is_negative NZero = True"
| "is_negative NInf = True"
| "is_negative x = False"

fun val :: "jsnum \<Rightarrow> rat" where
  "val (Fin q) = q"
| "val x = 0"

definition js_mul :: "jsnum \<Rightarrow> jsnum \<Rightarrow> jsnum" where
  "js_mul x y =
     (if x = NaN \<or> y = NaN then NaN
      else if is_infinite x \<or> is_infinite y
      then (if is_zero x \<or> is_zero y then NaN
            else infinity (is_negative x \<noteq> is_negative y))
      else if is_zero x \<or> is_zero y then signed_zero (is_negative x \<noteq> is_negative y)
      else round_double (val x * val y))"

definition js_div :: "jsnum \<Rightarrow> jsnum \<Rightarrow> jsnum" where
  "js_div x y =
     (if x = NaN \<or> y = NaN then NaN
      else if is_infinite x
      then (if is_infinite y then NaN else infinity (is_negative x \<noteq> is_negative y))
      else if is_infinite y then signed_zero (is_negative x \<noteq> is_negative y)
      else if is_zero y
      then (if is_zero x then NaN else infinity (is_negative x \<noteq> is_negative y))
      else if is_zero x then signed_zero (is_negative x \<noteq> is_negative y)
      else round_double (val x / val y))"

text \<open>
  A sum of two zeros is negative only when both are; any other exact sum of 0 is the
  positive zero.
\<close>

definition js_add :: "jsnum \<Rightarrow> jsnum \<Rightarrow> jsnum" where
  "js_add x y =
     (if x = NaN \<or> y = NaN then NaN
      else if is_infinite x then (if is_infinite y \<and> x \<noteq> y then NaN else x)
      else if is_infinite y then y
      else if x = NZero \<and> y = NZero then NZero
      else if val x + val y = 0 then Fin 0
      else round_double (val x + val y))"

text \<open>
  The comparison \<open>x < y\<close>: false as soon as one side is \<open>NaN\<close>; the two zeros are
  equal.
\<close>

definition js_lt :: "jsnum \<Rightarrow> jsnum \<Rightarrow> bool" where
  "js_lt x y =
     (if x = NaN \<or> y = NaN then False
      else if x = PInf \<or> y = NInf then False
      else if x = NInf \<or> y = PInf then True
      else val x < val y)"

text \<open>
  A property that was never assigned reads as \<open>undefined\<close>, written \<open>None\<close>;
  arithmetic and comparison convert \<open>undefined\<close> to \<open>NaN\<close>.
\<close>

fun toNumber :: "jsnum option \<Rightarrow> jsnum" where
  "toNumber None = NaN"
| "toNumber (Some x) = x"


section \<open>Data model\<close>

subsection \<open>RecorderStatus\<close>

text \<open>
  The frozen enum object of the source has five keys. Reading any other key of it, as
  \<open>RecorderStatus.Initialized\<close> does, gives \<open>undefined\<close>. A status value is therefore
  a number or \<open>undefined\<close>.
\<close>

type_synonym status_value = "nat option"

definition RecorderStatus :: "string \<Rightarrow> status_value" where
  "RecorderStatus =
     [''Ready'' \<mapsto> 0, ''Initializing'' \<mapsto> 1, ''Recording'' \<mapsto> 2,
      ''Stopping'' \<mapsto> 3, ''Stopped'' \<mapsto> 4]"

subsection \<open>Errors, frames, artifacts\<close>

type_synonym byte = "8 word"

datatype error =
    RangeError
  | Thrown string  \<comment> \<open>an exception raised by an external collaborator\<close>

datatype Frame =
    Bitmap                 \<comment> \<open>\<open>createImageBitmap(canvas)\<close>\<close>
  | VideoFrame jsnum       \<comment> \<open>\<open>new VideoFrame(canvas, {timestamp})\<close>\<close>
  | NoFrame                \<comment> \<open>\<open>undefined\<close>\<close>
  | Pixels "byte list"     \<comment> \<open>a \<open>Uint8Array\<close> or the \<open>data\<close> of an \<open>ImageData\<close>\<close>
  | Screenshot "string option"  \<comment> \<open>the blob of \<open>canvasScreenshot\<close>, with the extension of its file name\<close>

datatype Artifact = Single "byte list" | Many "byte list list"

subsection \<open>The drawing surface\<close>

text \<open>
  A rendering context is duck-typed by the recorder: a WebGL context exposes
  \<open>drawingBufferWidth\<close>, \<open>drawingBufferHeight\<close> and \<open>readPixels\<close>, a 2D context
  exposes \<open>getImageData\<close>; both expose their canvas. What the surface shows is not the
  recorder's business, so the read-back functions are fields of the context.
\<close>

record Context =
  drawingBufferWidth :: "nat option"
  drawingBufferHeight :: "nat option"
  canvas_width :: nat
  canvas_height :: nat
  readPixels :: "nat \<Rightarrow> nat \<Rightarrow> nat \<Rightarrow> nat \<Rightarrow> error + byte list"
  getImageData :: "nat \<Rightarrow> nat \<Rightarrow> nat \<Rightarrow> nat \<Rightarrow> error + byte list"
  createImageBitmap :: "error option"
  canvasScreenshot :: "error option"

subsection \<open>The encoder contract\<close>

text \<open>
  What \<open>init\<close> passes to the encoder. The canvas, \<open>encoderOptions\<close>, \<open>paramString\<close>
  and \<open>debug\<close> are handed through untouched and are left out.
\<close>

record EncoderInit =
  cfg_width :: nat
  cfg_height :: nat
  cfg_frameRate :: "jsnum option"
  cfg_extension :: "string option"
  cfg_mimeType :: "string option"

text \<open>
  The encoder classes are external to the recorder. An encoder object is its class's
  static metadata (\<open>name\<close>, \<open>supportedExtensions\<close>), its methods, and its instance
  state \<open>enc_state\<close>, of which the recorder reads the properties \<open>frameMethod\<close>,
  \<open>extension\<close> and \<open>mimeType\<close> and writes \<open>width\<close> and \<open>height\<close>. Every method is
  asynchronous and may reject.
\<close>

record 'e Encoder =
  className :: string
  supportedExtensions :: "string list"
  enc_state :: 'e
  frameMethod :: "'e \<Rightarrow> string option"
  enc_extension :: "'e \<Rightarrow> string option"
  enc_mimeType :: "'e \<Rightarrow> string option"
  enc_set_width :: "nat \<Rightarrow> 'e \<Rightarrow> 'e"
  enc_set_height :: "nat \<Rightarrow> 'e \<Rightarrow> 'e"
  enc_init :: "EncoderInit \<Rightarrow> 'e \<Rightarrow> error + 'e"
  enc_encode :: "Frame \<Rightarrow> jsnum \<Rightarrow> 'e \<Rightarrow> error + 'e"
  enc_stop :: "'e \<Rightarrow> error + ('e \<times> Artifact option)"
  enc_dispose :: "'e \<Rightarrow> error + 'e"

datatype EncoderClass = GIFEncoder | FrameEncoder | WebCodecsEncoder | H264MP4Encoder

subsection \<open>Options and recorder state\<close>

text \<open>
  \<open>RecorderOptions\<close>: all optional. A key that is absent is \<open>None\<close>. The
  \<open>onStatusChange\<close> callback is not a field: what it is given is recorded in the trace
  of the recorder. The default file name is built from the name, the start time, the
  dimensions, the frame rate and the extension by \<open>formatDate\<close> of \<open>utils.js\<close> and
  string formatting; it is kept as these components.
\<close>

datatype FileName =
    Literal string
  | DefaultFileName "string option" "nat option" nat nat "jsnum option" "string option"

record 'e RecorderOptions =
  opt_name :: "string option"
  opt_filename :: "FileName option"
  opt_duration :: "jsnum option"
  opt_frameRate :: "jsnum option"
  opt_download :: "bool option"
  opt_extension :: "string option"
  opt_encoder :: "'e Encoder option"

definition defaultOptions :: "'e RecorderOptions" where
  "defaultOptions =
     \<lparr>opt_name = Some '''', opt_filename = None, opt_duration = Some (Fin 3),
      opt_frameRate = Some (Fin 30), opt_download = Some True,
      opt_extension = Some ''mp4'', opt_encoder = None\<rparr>"

text \<open>The object spread \<open>{ ...a, ...b }\<close>: a key of \<open>b\<close> wins over the same key of \<open>a\<close>.\<close>

fun spread1 :: "'a option \<Rightarrow> 'a option \<Rightarrow> 'a option" where
  "spread1 a None = a"
| "spread1 a (Some v) = Some v"

definition spread :: "'e RecorderOptions \<Rightarrow> 'e RecorderOptions \<Rightarrow> 'e RecorderOptions" where
  "spread a b =
     \<lparr>opt_name = spread1 (opt_name a) (opt_name b),
      opt_filename = spread1 (opt_filename a) (opt_filename b),
      opt_duration = spread1 (opt_duration a) (opt_duration b),
      opt_frameRate = spread1 (opt_frameRate a) (opt_frameRate b),
      opt_download = spread1 (opt_download a) (opt_download b),
      opt_extension = spread1 (opt_extension a) (opt_extension b),
      opt_encoder = spread1 (opt_encoder a) (opt_encoder b)\<rparr>"

text \<open>
  Everything the recorder does to the outside world, in order: the statuses delivered to
  \<open>onStatusChange\<close>, console output, encoder calls and downloads.
\<close>

datatype event =
    StatusChange status_value
  | Warn string "string option"  \<comment> \<open>unsupported extension for encoder (name); defaulting to (extension)\<close>
  | Debug string
  | EncoderInitCall EncoderInit
  | EncoderEncodeCall Frame jsnum
  | EncoderStopCall
  | EncoderDisposeCall
  | Download "FileName option" "byte list list" "string option"

record 'e Recorder =
  ctx :: Context
  name :: "string option"
  filename :: "FileName option"
  duration :: "jsnum option"
  frameRate :: "jsnum option"
  download :: "bool option"
  extension :: "string option"
  encoder :: "'e Encoder"
  status :: status_value
  deltaTime :: "jsnum option"
  time :: "jsnum option"
  frame :: "jsnum option"
  frameTotal :: "jsnum option"
  startTime :: "nat option"
  trace :: "event list"

section \<open>Operations of the Recorder\<close>

definition mimeTypes :: "string \<Rightarrow> string option" where
  "mimeTypes =
     [''mkv'' \<mapsto> ''video/x-matroska;codecs=avc1'', ''webm'' \<mapsto> ''video/webm'',
      ''mp4'' \<mapsto> ''video/mp4'', ''gif'' \<mapsto> ''image/gif'']"

text \<open>\<open>a || b\<close> on a possibly undefined number: \<open>undefined\<close> and \<open>0\<close> are falsy.\<close>

fun or_else :: "nat option \<Rightarrow> nat \<Rightarrow> nat" where
  "or_else None b = b"
| "or_else (Some a) b = (if a = 0 then b else a)"

definition set_width :: "nat \<Rightarrow> 'e Recorder \<Rightarrow> 'e Recorder" where
  "set_width v r =
     r\<lparr>encoder := (encoder r)\<lparr>enc_state := enc_set_width (encoder r) v (enc_state (encoder r))\<rparr>\<rparr>"

definition set_height :: "nat \<Rightarrow> 'e Recorder \<Rightarrow> 'e Recorder" where
  "set_height v r =
     r\<lparr>encoder := (encoder r)\<lparr>enc_state := enc_set_height (encoder r) v (enc_state (encoder r))\<rparr>\<rparr>"

definition get_width :: "'e Recorder \<Rightarrow> nat" where
  "get_width r = or_else (drawingBufferWidth (ctx r)) (canvas_width (ctx r))"

definition get_height :: "'e Recorder \<Rightarrow> nat" where
  "get_height r = or_else (drawingBufferHeight (ctx r)) (canvas_height (ctx r))"

definition updateStatus :: "status_value \<Rightarrow> 'e Recorder \<Rightarrow> 'e Recorder" where
  "updateStatus s r = r\<lparr>status := s, trace := trace r @ [StatusChange s]\<rparr>"

definition getDefaultFileName :: "'e Recorder \<Rightarrow> string option \<Rightarrow> FileName" where
  "getDefaultFileName r ext =
     DefaultFileName (name r) (startTime r) (get_width r) (get_height r) (frameRate r) ext"

text \<open>\<open>supportedExtensions[0]\<close> is \<open>undefined\<close> on an empty array.\<close>

fun first :: "'a list \<Rightarrow> 'a option" where
  "first [] = None"
| "first (x # xs) = Some x"

fun js_includes :: "string list \<Rightarrow> string option \<Rightarrow> bool" where
  "js_includes xs None = False"
| "js_includes xs (Some x) = (x \<in> set xs)"

definition getSupportedExtension :: "'e Recorder \<Rightarrow> string option \<times> 'e Recorder" where
  "getSupportedExtension r =
     (let CurrentEncoder = encoder r;
          isExtensionSupported = js_includes (supportedExtensions CurrentEncoder) (extension r);
          ext = (if isExtensionSupported then extension r
                 else first (supportedExtensions CurrentEncoder))
      in (ext,
          if \<not> isExtensionSupported
          then r\<lparr>trace := trace r @ [Warn (className CurrentEncoder) ext]\<rparr>
          else r))"

text \<open>
  The constructor. \<open>mk\<close> stands for \<open>new C(opts)\<close> on the four encoder classes and
  \<open>isWebCodecsSupported\<close> for the constant of the same name in \<open>utils.js\<close>.
\<close>

definition constructor ::
  "(EncoderClass \<Rightarrow> 'e RecorderOptions \<Rightarrow> 'e Encoder) \<Rightarrow> bool \<Rightarrow> Context \<Rightarrow>
   'e RecorderOptions \<Rightarrow> 'e Recorder" where
  "constructor mk isWebCodecsSupported context options =
     (let opts = spread defaultOptions options;
          enc = (case opt_encoder opts of
                   Some e \<Rightarrow> e
                 | None \<Rightarrow>
                     if opt_extension opts = Some ''gif'' then mk GIFEncoder opts
                     else if js_includes [''png'', ''jpg''] (opt_extension opts)
                     then mk FrameEncoder opts
                     else if isWebCodecsSupported then mk WebCodecsEncoder opts
                     else mk H264MP4Encoder opts)
      in updateStatus (RecorderStatus ''Ready'')
           \<lparr>ctx = context, name = opt_name opts, filename = opt_filename opts,
            duration = opt_duration opts, frameRate = opt_frameRate opts,
            download = opt_download opts, extension = opt_extension opts,
            encoder = enc, status = None, deltaTime = None, time = None, frame = None,
            frameTotal = None, startTime = None, trace = []\<rparr>)"

text \<open>
  Every method is asynchronous: it returns the recorder as the call left it, and either
  the value the promise resolved to or the error it rejected with.
\<close>

definition init :: "'e Recorder \<Rightarrow> 'e Recorder \<times> (error + unit)" where
  "init r0 =
     (let r1 = updateStatus (RecorderStatus ''Initializing'') r0;
          r2 = r1\<lparr>deltaTime := Some (js_div (Fin 1) (toNumber (frameRate r1))),
                  time := Some (Fin 0),
                  frame := Some (Fin 0),
                  frameTotal := Some (js_mul (toNumber (duration r1)) (toNumber (frameRate r1)))\<rparr>;
          (ext, r3) = getSupportedExtension r2;
          cfg = \<lparr>cfg_width = get_width r3, cfg_height = get_height r3,
                 cfg_frameRate = frameRate r3, cfg_extension = ext,
                 cfg_mimeType = (case ext of None \<Rightarrow> None | Some x \<Rightarrow> mimeTypes x)\<rparr>;
          r4 = r3\<lparr>trace := trace r3 @ [EncoderInitCall cfg]\<rparr>
      in case enc_init (encoder r4) cfg (enc_state (encoder r4)) of
           Inl e \<Rightarrow> (r4, Inl e)
         | Inr s \<Rightarrow>
             (updateStatus (RecorderStatus ''Initialized'')
                (r4\<lparr>encoder := (encoder r4)\<lparr>enc_state := s\<rparr>\<rparr>), Inr ()))"

subsection \<open>Frame acquisition\<close>

text \<open>
  \<open>new Uint8Array(n)\<close> is \<open>n\<close> zero bytes. \<open>readPixels\<close> writes into the array it is
  given: the array then holds the bytes read, cut to its length.
\<close>

definition Uint8Array :: "nat \<Rightarrow> byte list" where
  "Uint8Array n = replicate n 0"

definition written :: "byte list \<Rightarrow> byte list \<Rightarrow> byte list" where
  "written target bytes = take (length target) bytes @ drop (length bytes) target"

text \<open>\<open>a.subarray(b, e)\<close> for \<open>0 \<le> b \<le> e\<close>: the indices are clamped to the array.\<close>

definition subarray :: "byte list \<Rightarrow> nat \<Rightarrow> nat \<Rightarrow> byte list" where
  "subarray a b e = take (e - b) (drop b a)"

text \<open>\<open>target.set(source, offset)\<close> throws a \<open>RangeError\<close> when the source does not fit.\<close>

definition typed_set :: "byte list \<Rightarrow> byte list \<Rightarrow> int \<Rightarrow> error + byte list" where
  "typed_set target source offset =
     (if offset < 0 \<or> int (length target) < offset + int (length source) then Inl RangeError
      else Inr (take (nat offset) target @ source @
                drop (nat offset + length source) target))"

text \<open>
  The loop \<open>for (let i = 0; i < length; i += row)\<close> of the \<open>imageData\<close> case, with
  \<open>length = width * height * 4\<close>, \<open>row = width * 4\<close> and \<open>end = (height - 1) * row\<close>.
\<close>

function flip_loop ::
  "nat \<Rightarrow> nat \<Rightarrow> nat \<Rightarrow> byte list \<Rightarrow> byte list \<Rightarrow> error + byte list" where
  "flip_loop i width height pixels pixelsFlipped =
     (if i < width * height * 4
      then (case typed_set pixelsFlipped (subarray pixels i (i + width * 4))
                   ((int height - 1) * int (width * 4) - int i) of
              Inl e \<Rightarrow> Inl e
            | Inr flipped \<Rightarrow> flip_loop (i + width * 4) width height pixels flipped)
      else Inr pixelsFlipped)"
  by pat_completeness auto
termination
proof (relation "measure (\<lambda>(i, width, height, pixels, pixelsFlipped). width * height * 4 - i)")
  show "wf (measure (\<lambda>(i, width, height, pixels, pixelsFlipped). width * height * 4 - i))"
    by simp
next
  fix i width height :: nat and pixels pixelsFlipped flipped :: "byte list"
  assume "i < width * height * 4"
  then have "width * height * 4 - (i + width * 4) < width * height * 4 - i"
    by (cases width) auto
  then show "((i + width * 4, width, height, pixels, flipped), (i, width, height, pixels, pixelsFlipped))
        \<in> measure (\<lambda>(i, width, height, pixels, pixelsFlipped). width * height * 4 - i)"
    by simp
qed

declare flip_loop.simps [simp del]

text \<open>
  Modelled from the spec: \<open>nextMultiple\<close> of \<open>utils.js\<close>, which is not among the
  sources. The dimensions are rounded up to the nearest even number: the next multiple
  of \<open>m\<close> at or above \<open>x\<close>.
\<close>

definition nextMultiple :: "nat \<Rightarrow> nat \<Rightarrow> nat" where
  "nextMultiple x m = ((x + m - 1) div m) * m"

text \<open>
  The \<open>switch\<close> on the frame method. In the \<open>imageData\<close> case the flipping branch is
  taken when \<open>drawingBufferWidth\<close> is truthy, that is defined and not 0. A context with
  that width and no \<open>drawingBufferHeight\<close> makes \<open>length\<close> \<open>NaN\<close>, the two arrays
  empty and the loop idle, as a height of 0 does.
\<close>

definition getFrame :: "'e Recorder \<Rightarrow> string option \<Rightarrow> error + Frame" where
  "getFrame r frame_method =
     (if frame_method = Some ''bitmap'' then
        (case createImageBitmap (ctx r) of Some e \<Rightarrow> Inl e | None \<Rightarrow> Inr Bitmap)
      else if frame_method = Some ''videoFrame'' then
        Inr (VideoFrame (js_mul (toNumber (time r)) (Fin 1000000)))
      else if frame_method = Some ''requestFrame'' then Inr NoFrame
      else if frame_method = Some ''imageData'' then
        (case drawingBufferWidth (ctx r) of
           Some (Suc w) \<Rightarrow>
             (let width = Suc w;
                  height = (case drawingBufferHeight (ctx r) of None \<Rightarrow> 0 | Some h \<Rightarrow> h);
                  len = width * height * 4
              in case readPixels (ctx r) 0 0 width height of
                   Inl e \<Rightarrow> Inl e
                 | Inr bytes \<Rightarrow>
                     (case flip_loop 0 width height (written (Uint8Array len) bytes)
                             (Uint8Array len) of
                        Inl e \<Rightarrow> Inl e
                      | Inr pixelsFlipped \<Rightarrow> Inr (Pixels pixelsFlipped)))
         | _ \<Rightarrow>
             (case getImageData (ctx r) 0 0 (nextMultiple (get_width r) 2)
                     (nextMultiple (get_height r) 2) of
                Inl e \<Rightarrow> Inl e
              | Inr data \<Rightarrow> Inr (Pixels data)))
      else
        (case canvasScreenshot (ctx r) of
           Some e \<Rightarrow> Inl e
         | None \<Rightarrow> Inr (Screenshot (enc_extension (encoder r) (enc_state (encoder r))))))"

subsection \<open>stop, step, start\<close>

fun blobParts :: "Artifact \<Rightarrow> byte list list" where
  "blobParts (Single b) = [b]"
| "blobParts (Many bs) = bs"

definition stop :: "'e Recorder \<Rightarrow> 'e Recorder \<times> (error + Artifact option)" where
  "stop r0 =
     (if status r0 \<noteq> RecorderStatus ''Recording'' then (r0, Inr None)
      else
        (let r1 = updateStatus (RecorderStatus ''Stopping'') r0;
             r2 = r1\<lparr>trace := trace r1 @ [EncoderStopCall]\<rparr>
         in case enc_stop (encoder r2) (enc_state (encoder r2)) of
              Inl e \<Rightarrow> (r2, Inl e)
            | Inr (s, buffer) \<Rightarrow>
                (let r3 = r2\<lparr>encoder := (encoder r2)\<lparr>enc_state := s\<rparr>\<rparr>;
                     r4 = (case buffer of
                             Some b \<Rightarrow>
                               if download r3 = Some True
                               then r3\<lparr>trace := trace r3 @
                                      [Download (filename r3) (blobParts b)
                                         (enc_mimeType (encoder r3) (enc_state (encoder r3)))]\<rparr>
                               else r3
                           | None \<Rightarrow> r3)
                 in (updateStatus (RecorderStatus ''Stopped'') r4, Inr buffer))))"

definition step :: "'e Recorder \<Rightarrow> 'e Recorder \<times> (error + unit)" where
  "step r0 =
     (if status r0 = RecorderStatus ''Recording'' \<and>
         js_lt (toNumber (frame r0)) (toNumber (frameTotal r0))
      then
        (case getFrame r0 (frameMethod (encoder r0) (enc_state (encoder r0))) of
           Inl e \<Rightarrow> (r0, Inl e)
         | Inr f \<Rightarrow>
             (let r1 = r0\<lparr>trace := trace r0 @ [EncoderEncodeCall f (toNumber (frame r0))]\<rparr>
              in case enc_encode (encoder r1) f (toNumber (frame r1)) (enc_state (encoder r1)) of
                   Inl e \<Rightarrow> (r1, Inl e)
                 | Inr s \<Rightarrow>
                     (r1\<lparr>encoder := (encoder r1)\<lparr>enc_state := s\<rparr>,
                         time := Some (js_add (toNumber (time r1)) (toNumber (deltaTime r1))),
                         frame := Some (js_add (toNumber (frame r1)) (Fin 1))\<rparr>, Inr ())))
      else
        (case stop r0 of
           (r1, Inl e) \<Rightarrow> (r1, Inl e)
         | (r1, Inr buffer) \<Rightarrow> (r1, Inr ())))"

text \<open>\<open>this.filename ||= v\<close>: \<open>undefined\<close> and the empty string are falsy.\<close>

fun or_assign :: "FileName option \<Rightarrow> FileName \<Rightarrow> FileName option" where
  "or_assign None v = Some v"
| "or_assign (Some (Literal s)) v = (if s = [] then Some v else Some (Literal s))"
| "or_assign (Some f) v = Some f"

text \<open>\<open>start\<close> reads the clock once (\<open>new Date()\<close>): \<open>now\<close> is what it reads.\<close>

definition start :: "nat \<Rightarrow> 'e Recorder \<Rightarrow> 'e Recorder \<times> (error + unit)" where
  "start now r0 =
     (case init r0 of
        (r1, Inl e) \<Rightarrow> (r1, Inl e)
      | (r1, Inr u) \<Rightarrow>
          if status r1 \<noteq> RecorderStatus ''Initialized''
          then (r1\<lparr>trace := trace r1 @ [Debug ''canvas-record: recorder not initialized.'']\<rparr>,
                Inr ())
          else
            (let r2 = r1\<lparr>startTime := Some now\<rparr>;
                 r3 = r2\<lparr>filename :=
                          or_assign (filename r2)
                            (getDefaultFileName r2
                               (enc_extension (encoder r2) (enc_state (encoder r2))))\<rparr>;
                 r4 = updateStatus (RecorderStatus ''Recording'') r3
             in step r4))"

definition dispose :: "'e Recorder \<Rightarrow> 'e Recorder \<times> (error + unit)" where
  "dispose r0 =
     (let r1 = r0\<lparr>trace := trace r0 @ [EncoderDisposeCall]\<rparr>
      in case enc_dispose (encoder r1) (enc_state (encoder r1)) of
           Inl e \<Rightarrow> (r1, Inl e)
         | Inr s \<Rightarrow> (r1\<lparr>encoder := (encoder r1)\<lparr>enc_state := s\<rparr>\<rparr>, Inr ()))"

subsection \<open>Executions\<close>

text \<open>
  An execution of one recorder is a sequence of method calls, each awaited before the
  next. A call that rejects leaves the recorder as it was at the rejection, and the
  caller may go on calling.
\<close>

datatype call = Start nat | Init | Step | Stop | Dispose

fun outcome :: "'e Recorder \<times> (error + 'a) \<Rightarrow> 'e Recorder \<times> error option" where
  "outcome (r, Inl e) = (r, Some e)"
| "outcome (r, Inr v) = (r, None)"

fun exec :: "call \<Rightarrow> 'e Recorder \<Rightarrow> 'e Recorder \<times> error option" where
  "exec (Start now) r = outcome (start now r)"
| "exec Init r = outcome (init r)"
| "exec Step r = outcome (step r)"
| "exec Stop r = outcome (stop r)"
| "exec Dispose r = outcome (dispose r)"

fun run :: "call list \<Rightarrow> 'e Recorder \<Rightarrow> 'e Recorder" where
  "run [] r = r"
| "run (c # cs) r = run cs (fst (exec c r))"

text \<open>What the \<open>onStatusChange\<close> observer was given, in order.\<close>

fun observed :: "event list \<Rightarrow> status_value list" where
  "observed [] = []"
| "observed (StatusChange s # es) = s # observed es"
| "observed (e # es) = observed es"


section \<open>Specification-side definitions\<close>

subsection \<open>The selection policy, in the words of the specification\<close>

text \<open>
  An explicitly supplied encoder wins outright; otherwise GIF output requests the GIF
  backend; single-image output (\<open>png\<close>, \<open>jpg\<close>) requests the frame-sequence backend;
  otherwise the hardware-accelerated backend if the runtime supports it, else the
  software backend.
\<close>

datatype 'e Backend =
    Supplied "'e Encoder" | GIFBackend | FrameSequenceBackend | HardwareBackend | SoftwareBackend

definition spec_selection :: "'e Encoder option \<Rightarrow> string option \<Rightarrow> bool \<Rightarrow> 'e Backend" where
  "spec_selection supplied ext hardware =
     (case supplied of
        Some e \<Rightarrow> Supplied e
      | None \<Rightarrow>
          if ext = Some ''gif'' then GIFBackend
          else if ext = Some ''png'' \<or> ext = Some ''jpg'' then FrameSequenceBackend
          else if hardware then HardwareBackend
          else SoftwareBackend)"

fun backend_encoder ::
  "(EncoderClass \<Rightarrow> 'e RecorderOptions \<Rightarrow> 'e Encoder) \<Rightarrow> 'e RecorderOptions \<Rightarrow>
   'e Backend \<Rightarrow> 'e Encoder" where
  "backend_encoder mk opts (Supplied e) = e"
| "backend_encoder mk opts GIFBackend = mk GIFEncoder opts"
| "backend_encoder mk opts FrameSequenceBackend = mk FrameEncoder opts"
| "backend_encoder mk opts HardwareBackend = mk WebCodecsEncoder opts"
| "backend_encoder mk opts SoftwareBackend = mk H264MP4Encoder opts"

subsection \<open>Concrete recorders\<close>

text \<open>
  An encoder that accepts everything and counts the frames it was given, on a 640 by 480
  2D canvas.
\<close>

definition test_encoder :: "nat Encoder" where
  "test_encoder =
     \<lparr>className = ''TestEncoder'', supportedExtensions = [''mp4'', ''webm''], enc_state = 0,
      frameMethod = (\<lambda>s. Some ''requestFrame''),
      enc_extension = (\<lambda>s. Some ''mp4''),
      enc_mimeType = (\<lambda>s. Some ''video/mp4''),
      enc_set_width = (\<lambda>v s. s), enc_set_height = (\<lambda>v s. s),
      enc_init = (\<lambda>cfg s. Inr s),
      enc_encode = (\<lambda>f i s. Inr (Suc s)),
      enc_stop = (\<lambda>s. Inr (s, Some (Single []))),
      enc_dispose = (\<lambda>s. Inr s)\<rparr>"

definition test_mk :: "EncoderClass \<Rightarrow> nat RecorderOptions \<Rightarrow> nat Encoder" where
  "test_mk c opts = test_encoder"

definition canvas2d :: Context where
  "canvas2d =
     \<lparr>drawingBufferWidth = None, drawingBufferHeight = None, canvas_width = 640,
      canvas_height = 480,
      readPixels = (\<lambda>x y w h. Inl (Thrown ''readPixels is not a function'')),
      getImageData = (\<lambda>x y w h. Inr (replicate (w * h * 4) 0)),
      createImageBitmap = None, canvasScreenshot = None\<rparr>"

definition test_options :: "jsnum \<Rightarrow> jsnum \<Rightarrow> nat RecorderOptions" where
  "test_options d f = defaultOptions\<lparr>opt_duration := Some d, opt_frameRate := Some f\<rparr>"

definition recorder :: "jsnum \<Rightarrow> jsnum \<Rightarrow> nat Recorder" where
  "recorder d f = constructor test_mk True canvas2d (test_options d f)"

definition mov_recorder :: "nat Recorder" where
  "mov_recorder =
     constructor test_mk True canvas2d (defaultOptions\<lparr>opt_extension := Some ''mov''\<rparr>)"

text \<open>A WebGL context one pixel wide and three pixels high.\<close>

definition webgl :: Context where
  "webgl =
     \<lparr>drawingBufferWidth = Some 1, drawingBufferHeight = Some 3, canvas_width = 1,
      canvas_height = 3,
      readPixels = (\<lambda>x y w h. Inr [1, 2, 3, 4, 5, 6, 7, 8, 9, 10, 11, 12]),
      getImageData = (\<lambda>x y w h. Inl (Thrown ''getImageData is not a function'')),
      createImageBitmap = None, canvasScreenshot = None\<rparr>"

definition webgl_recorder :: "nat Recorder" where
  "webgl_recorder = constructor test_mk True webgl defaultOptions"


subsection \<open>The status sequence\<close>

text \<open>
  The states of the specification, in the order it lists them. The enum of the source
  gives a number to five of them; it has no key \<open>Initialized\<close>.
\<close>

datatype Status = Ready | Initializing | Initialized | Recording | Stopping | Stopped

definition spec_status_order :: "Status list" where
  "spec_status_order = [Ready, Initializing, Initialized, Recording, Stopping, Stopped]"

fun key :: "Status \<Rightarrow> string" where
  "key Ready = ''Ready''"
| "key Initializing = ''Initializing''"
| "key Initialized = ''Initialized''"
| "key Recording = ''Recording''"
| "key Stopping = ''Stopping''"
| "key Stopped = ''Stopped''"

text \<open>
  The state a value given to the observer stands for: the one whose key of the enum holds
  that number. \<open>undefined\<close> and a number outside the enum stand for no state.
\<close>

definition status_of :: "status_value \<Rightarrow> Status option" where
  "status_of v =
     (case v of
        None \<Rightarrow> None
      | Some n \<Rightarrow> List.find (\<lambda>s. RecorderStatus (key s) = Some n) spec_status_order)"

text \<open>The states delivered to the observer, in order.\<close>

definition delivered :: "'e Recorder \<Rightarrow> Status list" where
  "delivered r = List.map_filter status_of (observed (trace r))"

fun calls_init :: "call \<Rightarrow> bool" where
  "calls_init (Start now) = True"
| "calls_init Init = True"
| "calls_init c = False"

text \<open>
  \<open>view\<close> is what an observer knows of a recorder: its status and the values delivered
  so far. A recorder is \<open>fresh\<close> when only the constructor has reported. \<open>lifecycle\<close>
  lists what the code has delivered, and the status it is in, at each point of a session
  that initialises once: a value of the enum at every point but one, and \<open>undefined\<close>
  once \<open>init\<close> has resolved.
\<close>

definition view :: "'e Recorder \<Rightarrow> status_value \<times> status_value list" where
  "view r = (status r, observed (trace r))"

definition fresh :: "'e Recorder \<Rightarrow> bool" where
  "fresh r \<longleftrightarrow> view r = (Some 0, [Some 0])"

definition lifecycle :: "'e Recorder \<Rightarrow> bool" where
  "lifecycle r \<longleftrightarrow>
     view r \<in> {(Some 0, [Some 0]), (Some 1, [Some 0, Some 1]), (None, [Some 0, Some 1, None]),
               (Some 2, [Some 0, Some 1, None, Some 2]),
               (Some 3, [Some 0, Some 1, None, Some 2, Some 3]),
               (Some 4, [Some 0, Some 1, None, Some 2, Some 3, Some 4])}"

text \<open>The part of \<open>start\<close> between the initialisation check and the first step.\<close>

definition arm :: "nat \<Rightarrow> 'e Recorder \<Rightarrow> 'e Recorder" where
  "arm now r1 =
     (let r2 = r1\<lparr>startTime := Some now\<rparr>;
          r3 = r2\<lparr>filename :=
                   or_assign (filename r2)
                     (getDefaultFileName r2
                        (enc_extension (encoder r2) (enc_state (encoder r2))))\<rparr>
      in updateStatus (RecorderStatus ''Recording'') r3)"

subsection \<open>Timing\<close>

text \<open>The comparisons \<open>\<le>\<close> and \<open>==\<close> of JavaScript on numbers: false when a side is NaN.\<close>

definition js_le :: "jsnum \<Rightarrow> jsnum \<Rightarrow> bool" where
  "js_le x y \<longleftrightarrow> x \<noteq> NaN \<and> y \<noteq> NaN \<and> \<not> js_lt y x"

definition js_eq :: "jsnum \<Rightarrow> jsnum \<Rightarrow> bool" where
  "js_eq x y \<longleftrightarrow> x \<noteq> NaN \<and> y \<noteq> NaN \<and> \<not> js_lt x y \<and> \<not> js_lt y x"

fun whole_or_infinite :: "jsnum \<Rightarrow> bool" where
  "whole_or_infinite (Fin q) = (q = of_int \<lfloor>q\<rfloor>)"
| "whole_or_infinite NZero = True"
| "whole_or_infinite PInf = True"
| "whole_or_infinite x = False"

text \<open>
  The invariant in the words of the specification:
  \<open>0 \<le> frameIndex \<le> frameTotal\<close> and \<open>logicalTime == frameIndex / frameRate\<close>.
\<close>

definition spec_timing_invariant :: "'e Recorder \<Rightarrow> bool" where
  "spec_timing_invariant r \<longleftrightarrow>
     js_le (Fin 0) (toNumber (frame r)) \<and>
     js_le (toNumber (frame r)) (toNumber (frameTotal r)) \<and>
     js_eq (toNumber (time r)) (js_div (toNumber (frame r)) (toNumber (frameRate r)))"

text \<open>
  What \<open>time\<close> holds after \<open>k\<close> encoded frames: \<open>init\<close> sets it to 0 and each frame
  runs \<open>this.time += this.deltaTime\<close>, one rounded addition.
\<close>

fun time_after :: "nat \<Rightarrow> jsnum \<Rightarrow> jsnum" where
  "time_after 0 dt = Fin 0"
| "time_after (Suc k) dt = js_add (time_after k dt) dt"

text \<open>
  The invariant the code keeps from \<open>init\<close> on. \<open>frame\<close> is a whole number \<open>k\<close>; it
  stops growing at \<open>2 ^ 53\<close>, where adding 1 is absorbed by the rounding. The frame
  before it was below \<open>frameTotal\<close>, and \<open>time\<close> is the sum of \<open>k\<close> times
  \<open>deltaTime\<close>.
\<close>

definition timing_inv :: "'e Recorder \<Rightarrow> bool" where
  "timing_inv r \<longleftrightarrow>
     deltaTime r = Some (js_div (Fin 1) (toNumber (frameRate r))) \<and>
     frameTotal r = Some (js_mul (toNumber (duration r)) (toNumber (frameRate r))) \<and>
     (\<exists>k \<le> 2 ^ 53.
        frame r = Some (Fin (of_nat k)) \<and>
        (k < 2 ^ 53 \<longrightarrow> time r = Some (time_after k (js_div (Fin 1) (toNumber (frameRate r))))) \<and>
        (k = 0 \<or> js_lt (Fin (of_nat (k - 1)))
                   (js_mul (toNumber (duration r)) (toNumber (frameRate r)))))"

text \<open>A recorder that stopped within \<open>step\<close> has no frame left to encode.\<close>

definition finished :: "'e Recorder \<Rightarrow> bool" where
  "finished r \<longleftrightarrow>
     (status r = RecorderStatus ''Stopped'' \<longrightarrow>
      \<not> js_lt (toNumber (frame r)) (toNumber (frameTotal r)))"

section \<open>Properties\<close>

subsection \<open>Double arithmetic\<close>

lemma round_half_even_error: "\<bar>of_int (round_half_even q) - q\<bar> \<le> 1 / 2"
proof -
  have "of_int \<lfloor>q\<rfloor> \<le> q" "q < of_int \<lfloor>q\<rfloor> + 1" by linarith+
  then show ?thesis
    by (auto simp: round_half_even_def Let_def abs_le_iff)
qed

lemma round_half_even_of_int: "round_half_even (of_int n) = n"
  by (simp add: round_half_even_def)

lemma pow2_less_iff: "(2::rat) powi m < 2 powi n \<longleftrightarrow> m < n"
proof
  assume "(2::rat) powi m < 2 powi n"
  show "m < n"
  proof (rule ccontr)
    assume "\<not> m < n"
    then have "(2::rat) powi n \<le> 2 powi m" by (intro power_int_increasing) simp_all
    with \<open>(2::rat) powi m < 2 powi n\<close> show False by simp
  qed
next
  assume "m < n"
  then show "(2::rat) powi m < 2 powi n" by (intro power_int_strict_increasing) simp_all
qed

lemma pow2_le_iff: "(2::rat) powi m \<le> 2 powi n \<longleftrightarrow> m \<le> n"
  using pow2_less_iff [of n m] by (simp add: not_less [symmetric])

lemma exponent_bounds:
  assumes "0 < a"
  shows "2 powi exponent a \<le> a" and "a < 2 powi (exponent a + 1)"
proof -
  have "2 powi exponent a \<le> a \<and> a < 2 powi (exponent a + 1)"
  proof (cases "1 \<le> a")
    case True
    define n where "n = \<lfloor>a\<rfloor>"
    have n: "0 < n" "of_int n \<le> a" "a < of_int n + 1" using True by (auto simp: n_def) linarith+
    have e: "exponent a = bitlen n - 1" using True by (simp add: exponent_def n_def)
    from bitlen_bounds [OF n(1)] have b: "2 ^ nat (bitlen n - 1) \<le> n" "n < 2 ^ nat (bitlen n)"
      by auto
    have bl: "1 \<le> bitlen n" using n(1) bitlen_eq_zero_iff [of n] bitlen_nonneg [of n] by linarith
    have "(2::rat) powi (bitlen n - 1) = of_int (2 ^ nat (bitlen n - 1))"
      using bl by (simp add: power_int_def)
    also have "\<dots> \<le> of_int n" using b(1) by (simp only: of_int_le_iff)
    finally have lo: "2 powi exponent a \<le> a" using n(2) e by simp
    have "n + 1 \<le> 2 ^ nat (bitlen n)" using b(2) by simp
    then have "(of_int (n + 1) :: rat) \<le> of_int (2 ^ nat (bitlen n))" by (simp only: of_int_le_iff)
    also have "\<dots> = 2 powi (bitlen n)" using bl by (simp add: power_int_def)
    finally have "a < 2 powi (exponent a + 1)" using n(3) e by simp
    with lo show ?thesis by simp
  next
    case False
    define b where "b = 1 / a"
    have b1: "1 < b" using False assms by (simp add: b_def)
    define n where "n = \<lceil>b\<rceil>"
    have n: "1 < n" "b \<le> of_int n" "of_int n - 1 < b" using b1 by (auto simp: n_def) linarith+
    define j where "j = bitlen (n - 1)"
    have e: "exponent a = - j" using False by (simp add: exponent_def j_def n_def b_def)
    have pos: "0 < n - 1" using n(1) by simp
    from bitlen_bounds [OF pos] have bb: "2 ^ nat (j - 1) \<le> n - 1" "n - 1 < 2 ^ nat j"
      by (auto simp: j_def)
    have jl: "1 \<le> j" using pos bitlen_eq_zero_iff [of "n - 1"] bitlen_nonneg [of "n - 1"]
      unfolding j_def by linarith
    have "n \<le> 2 ^ nat j" using bb(2) by simp
    then have "(of_int n :: rat) \<le> of_int (2 ^ nat j)" by (simp only: of_int_le_iff)
    also have "\<dots> = 2 powi j" using jl by (simp add: power_int_def)
    finally have "b \<le> 2 powi j" using n(2) by simp
    then have "1 / (2 powi j) \<le> 1 / b" using b1 by (intro divide_left_mono) simp_all
    then have lo: "2 powi exponent a \<le> a"
      using assms by (simp add: e b_def power_int_minus_divide)
    have "(2::rat) powi (j - 1) = of_int (2 ^ nat (j - 1))" using jl by (simp add: power_int_def)
    also have "\<dots> \<le> of_int (n - 1)" using bb(1) by (simp only: of_int_le_iff)
    also have "\<dots> < b" using n(3) by simp
    finally have "2 powi (j - 1) < b" .
    moreover have "(0::rat) < 2 powi (j - 1)" by simp
    ultimately have "1 / b < 1 / (2 powi (j - 1))" by (simp add: frac_less2)
    moreover have "(2::rat) powi (- (j - 1)) = 1 / 2 powi (j - 1)"
      by (rule power_int_minus_divide)
    ultimately have "a < 2 powi (- (j - 1))"
      using assms by (simp only: b_def) simp
    then have "a < 2 powi (exponent a + 1)" by (simp add: e)
    with lo show ?thesis by simp
  qed
  then show "2 powi exponent a \<le> a" and "a < 2 powi (exponent a + 1)" by simp_all
qed

lemma exponent_unique:
  assumes "0 < a" "2 powi e \<le> a" "a < 2 powi (e + 1)"
  shows "exponent a = e"
proof -
  from exponent_bounds [OF assms(1)] assms(2,3)
  have "(2::rat) powi e < 2 powi (exponent a + 1)" "(2::rat) powi exponent a < 2 powi (e + 1)"
    by linarith+
  then have "e < exponent a + 1" "exponent a < e + 1"
    by (simp_all add: pow2_less_iff)
  then show ?thesis by simp
qed

lemma round_double_pos:
  assumes "0 < x" "2 powi e \<le> x" "x < 2 powi (e + 1)"
  shows "round_double x =
           (let ulp = 2 powi (max e (- 1022) - 52);
                y = of_int (round_half_even (x / ulp)) * ulp
            in if 2 powi 1024 \<le> y then PInf else if y = 0 then Fin 0 else Fin y)"
proof -
  have "exponent x = e" using assms by (rule exponent_unique)
  with assms(1) show ?thesis
    by (simp add: round_double_def Let_def infinity_def signed_zero_def)
qed

lemma round_double_exact:
  assumes "0 < m" "m < 2 ^ 53" "- 1074 \<le> k" "of_int m * 2 powi k < (2::rat) powi 1024"
  shows "round_double (of_int m * 2 powi k) = Fin (of_int m * 2 powi k)"
proof -
  define x :: rat where "x = of_int m * 2 powi k"
  have xpos: "0 < x" using assms(1) by (simp add: x_def)
  define e where "e = max (exponent x) (- 1022)"
  have "2 powi exponent x \<le> x" using xpos by (rule exponent_bounds)
  also have "x < 2 ^ 53 * 2 powi k"
    unfolding x_def using assms(2) by (intro mult_strict_right_mono) (simp_all flip: of_int_less_iff)
  also have "\<dots> = 2 powi (53 + k)" by (simp add: power_int_add)
  finally have "exponent x < 53 + k" by (simp add: pow2_less_iff)
  with assms(3) have ek: "e \<le> k + 52" by (simp add: e_def)
  define d where "d = nat (k + 52 - e)"
  have "(2::rat) powi k = 2 powi (k + 52 - e) * 2 powi (e - 52)"
    by (simp flip: power_int_add)
  also have "(2::rat) powi (k + 52 - e) = 2 ^ d" using ek by (simp add: d_def power_int_def)
  finally have xe: "x = of_int (m * 2 ^ d) * 2 powi (e - 52)" by (simp add: x_def)
  have "x / 2 powi (e - 52) = of_int (m * 2 ^ d)" by (subst xe) simp
  then have "of_int (round_half_even (x / 2 powi (e - 52))) * 2 powi (e - 52) = x"
    using xe by (simp only: round_half_even_of_int)
  with xpos assms(4) show ?thesis
    unfolding x_def [symmetric]
    by (simp add: round_double_def Let_def e_def [symmetric])
qed

lemma round_double_of_nat:
  assumes "n \<le> 2 ^ 53"
  shows "round_double (of_nat n) = Fin (of_nat n)"
proof (cases "n = 0")
  case True
  then show ?thesis by (simp add: round_double_def)
next
  case False
  show ?thesis
  proof (cases "n = 2 ^ 53")
    case True
    have "round_double (of_int (2 ^ 52) * 2 powi 1) = Fin (of_int (2 ^ 52) * 2 powi 1)"
      by (rule round_double_exact) simp_all
    with True show ?thesis by simp
  next
    case n: False
    have "round_double (of_int (int n) * 2 powi 0) = Fin (of_int (int n) * 2 powi 0)"
    proof (rule round_double_exact)
      show "0 < int n" using False by simp
      have "n < 2 ^ 53" using assms n by simp
      then show "int n < 2 ^ 53" by (simp flip: of_nat_less_iff)
      then have "(of_int (int n) :: rat) < 2 ^ 53" by (simp flip: of_int_less_iff)
      then show "of_int (int n) * 2 powi 0 < (2::rat) powi 1024" by simp
    qed simp
    then show ?thesis by simp
  qed
qed

lemma round_double_error:
  assumes "2 powi (- 1022) \<le> x"
  shows "\<exists>y. \<bar>y - x\<bar> \<le> x / 2 ^ 53 \<and> 0 < y \<and>
           round_double x = (if 2 powi 1024 \<le> y then PInf else Fin y)"
proof -
  have xpos: "0 < x"
  proof -
    have "(0::rat) < 2 powi (- 1022)" by simp
    with assms show ?thesis by linarith
  qed
  define e where "e = exponent x"
  have b: "2 powi e \<le> x" "x < 2 powi (e + 1)"
    unfolding e_def using xpos by (rule exponent_bounds)+
  from assms b(2) have "(2::rat) powi (- 1022) < 2 powi (e + 1)" by linarith
  then have "- 1022 < e + 1" by (simp only: pow2_less_iff)
  then have el: "- 1022 \<le> e" by simp
  define ulp :: rat where "ulp = 2 powi (e - 52)"
  define y where "y = of_int (round_half_even (x / ulp)) * ulp"
  have ulp: "0 < ulp" by (simp add: ulp_def)
  have "y - x = (of_int (round_half_even (x / ulp)) - x / ulp) * ulp"
    using ulp by (simp add: y_def left_diff_distrib)
  then have "\<bar>y - x\<bar> = \<bar>of_int (round_half_even (x / ulp)) - x / ulp\<bar> * ulp"
    using ulp by (simp add: abs_mult)
  also have "\<dots> \<le> 1 / 2 * ulp"
    using ulp round_half_even_error [of "x / ulp"] by (intro mult_right_mono) simp_all
  also have "\<dots> = 2 powi e / 2 ^ 53"
  proof -
    have "(2::rat) powi (e + - 52) = 2 powi e * 2 powi (- 52)"
      by (rule power_int_add) simp
    moreover have "(2::rat) powi (- 52) = 1 / 2 ^ 52"
      by (simp add: power_int_minus_divide)
    ultimately have "ulp = 2 powi e * (1 / 2 ^ 52)" by (simp add: ulp_def)
    then show ?thesis by simp
  qed
  also have "\<dots> \<le> x / 2 ^ 53" using b(1) by (simp add: divide_right_mono)
  finally have err: "\<bar>y - x\<bar> \<le> x / 2 ^ 53" .
  have "x / 2 ^ 53 < x" using xpos by simp
  with err have ypos: "0 < y" by linarith
  have "round_double x = (if 2 powi 1024 \<le> y then PInf else Fin y)"
    using round_double_pos [OF xpos b] el ypos
    by (simp add: Let_def max_def ulp_def [symmetric] y_def [symmetric])
  with err ypos show ?thesis by blast
qed

lemma floor_rat_numeral: "\<lfloor>(numeral a :: rat) / numeral b\<rfloor> = numeral a div numeral b"
  using floor_divide_of_int_eq [of "numeral a" "numeral b", where ?'a = rat] by simp

lemma round_double_inexact: "round_double (2 ^ 53 + 1) = Fin (2 ^ 53)"
proof -
  have "round_double (2 ^ 53 + 1) =
      (let ulp = 2 powi (max 53 (- 1022) - 52);
           y = of_int (round_half_even ((2 ^ 53 + 1) / ulp)) * ulp
       in if 2 powi 1024 \<le> y then PInf else if y = 0 then Fin 0 else Fin y)"
    by (rule round_double_pos) simp_all
  then show ?thesis by (simp add: round_half_even_def Let_def floor_rat_numeral)
qed

lemma js_add_nat:
  assumes "a + b \<le> 2 ^ 53"
  shows "js_add (Fin (of_nat a)) (Fin (of_nat b)) = Fin (of_nat (a + b))"
proof (cases "a + b = 0")
  case True
  then show ?thesis by (simp add: js_add_def is_infinite_def)
next
  case False
  then have "(of_nat a :: rat) + of_nat b \<noteq> 0" by (simp flip: of_nat_add)
  with round_double_of_nat [OF assms] show ?thesis
    by (simp add: js_add_def is_infinite_def)
qed

lemma js_mul_nat:
  assumes "a * b \<le> 2 ^ 53"
  shows "js_mul (Fin (of_nat a)) (Fin (of_nat b)) = Fin (of_nat (a * b))"
proof (cases "a = 0 \<or> b = 0")
  case True
  then show ?thesis by (auto simp: js_mul_def is_infinite_def is_zero_def signed_zero_def)
next
  case False
  with round_double_of_nat [OF assms] show ?thesis
    by (simp add: js_mul_def is_infinite_def is_zero_def)
qed

lemma js_div_finite:
  "b \<noteq> 0 \<Longrightarrow> a \<noteq> 0 \<Longrightarrow> js_div (Fin a) (Fin b) = round_double (a / b)"
  by (simp add: js_div_def is_infinite_def is_zero_def)

lemma js_lt_Fin: "js_lt (Fin a) (Fin b) \<longleftrightarrow> a < b"
  by (simp add: js_lt_def)

lemmas small_sums =
  js_add_nat [of 0 1, simplified] js_add_nat [of 1 1, simplified]
  js_add_nat [of 2 1, simplified] js_add_nat [of 3 1, simplified]
  js_add_nat [of 0 0, simplified] js_add_nat [of 1 0, simplified]

lemmas small_products =
  js_mul_nat [of 1 1, simplified] js_mul_nat [of 1 2, simplified]
  js_mul_nat [of 2 1, simplified] js_mul_nat [of 2 3, simplified]


lemmas defs = test_encoder_def test_mk_def canvas2d_def test_options_def recorder_def
  constructor_def defaultOptions_def spread_def updateStatus_def RecorderStatus_def init_def
  start_def step_def stop_def getSupportedExtension_def get_width_def get_height_def
  getFrame_def mimeTypes_def getDefaultFileName_def Let_def

subsection \<open>stop and step outside Recording\<close>

text \<open>
  C4: for every status other than Recording, \<open>stop()\<close> returns at once: the recorder is
  unchanged, its trace included, so the encoder's \<open>stop\<close> was not called and nothing was
  downloaded, and the promise resolves to \<open>undefined\<close>, not to an artifact.
\<close>

theorem stop_not_recording:
  "status r \<noteq> RecorderStatus ''Recording'' \<Longrightarrow> stop r = (r, Inr None)"
  by (simp add: stop_def)

theorem stop_not_recording_witness:
  "status (recorder (Fin 1) (Fin 2)) \<noteq> RecorderStatus ''Recording'' \<and>
   stop (recorder (Fin 1) (Fin 2)) = (recorder (Fin 1) (Fin 2), Inr None)"
proof -
  have h: "status (recorder (Fin 1) (Fin 2)) \<noteq> RecorderStatus ''Recording''"
    by (simp add: recorder_def constructor_def updateStatus_def RecorderStatus_def Let_def)
  from h stop_not_recording [OF h] show ?thesis by simp
qed

text \<open>
  C10: \<open>step()\<close> outside Recording resolves and leaves the recorder unchanged: no call of
  the encoder's \<open>encode\<close> is added to the trace, and \<open>frame\<close>, \<open>time\<close> and \<open>status\<close>
  are what they were.
\<close>

theorem step_not_recording:
  "status r \<noteq> RecorderStatus ''Recording'' \<Longrightarrow> step r = (r, Inr ())"
  by (simp add: step_def stop_def)

theorem step_not_recording_witness:
  "status (run [Start 0, Stop] (recorder (Fin 1) (Fin 2))) = RecorderStatus ''Stopped'' \<and>
   step (run [Start 0, Stop] (recorder (Fin 1) (Fin 2))) =
     (run [Start 0, Stop] (recorder (Fin 1) (Fin 2)), Inr ())"
proof -
  have h: "status (run [Start 0, Stop] (recorder (Fin 1) (Fin 2))) = RecorderStatus ''Stopped''"
    by (simp add: defs small_sums small_products js_lt_Fin)
  then have "status (run [Start 0, Stop] (recorder (Fin 1) (Fin 2))) \<noteq> RecorderStatus ''Recording''"
    by (simp add: RecorderStatus_def)
  from h step_not_recording [OF this] show ?thesis by simp
qed

subsection \<open>Extension resolution and encoder selection\<close>

text \<open>
  C6: whatever the requested extension and the encoder, extension resolution keeps the
  requested extension when it is one of the encoder's \<open>supportedExtensions\<close>, and then
  changes nothing, so warns of nothing; otherwise it resolves to the first of the
  \<open>supportedExtensions\<close> and adds exactly one warning to the trace. (On an encoder
  with no supported extension at all, that first element is \<open>undefined\<close>.)
\<close>

theorem getSupportedExtension_resolves:
  "(extension r = Some x \<and> x \<in> set (supportedExtensions (encoder r)) \<longrightarrow>
      getSupportedExtension r = (Some x, r)) \<and>
   ((\<forall>y. extension r = Some y \<longrightarrow> y \<notin> set (supportedExtensions (encoder r))) \<and>
    supportedExtensions (encoder r) = e # es \<longrightarrow>
      getSupportedExtension r =
        (Some e, r\<lparr>trace := trace r @ [Warn (className (encoder r)) (Some e)]\<rparr>)) \<and>
   ((\<forall>y. extension r = Some y \<longrightarrow> y \<notin> set (supportedExtensions (encoder r))) \<and>
    supportedExtensions (encoder r) = [] \<longrightarrow>
      getSupportedExtension r =
        (None, r\<lparr>trace := trace r @ [Warn (className (encoder r)) None]\<rparr>))"
proof -
  have inc: "js_includes xs (extension r) \<longleftrightarrow> (\<exists>y. extension r = Some y \<and> y \<in> set xs)" for xs
    by (cases "extension r") simp_all
  have keep: "getSupportedExtension r = (extension r, r)"
    if "js_includes (supportedExtensions (encoder r)) (extension r)"
    using that by (simp add: getSupportedExtension_def Let_def)
  have fall: "getSupportedExtension r =
      (first (supportedExtensions (encoder r)),
       r\<lparr>trace := trace r @
              [Warn (className (encoder r)) (first (supportedExtensions (encoder r)))]\<rparr>)"
    if "\<not> js_includes (supportedExtensions (encoder r)) (extension r)"
    using that by (simp add: getSupportedExtension_def Let_def)
  show ?thesis
  proof (intro conjI impI)
    assume "extension r = Some x \<and> x \<in> set (supportedExtensions (encoder r))"
    then show "getSupportedExtension r = (Some x, r)" using keep by (simp add: inc)
  next
    assume a: "(\<forall>y. extension r = Some y \<longrightarrow> y \<notin> set (supportedExtensions (encoder r))) \<and>
      supportedExtensions (encoder r) = e # es"
    then have "\<not> js_includes (supportedExtensions (encoder r)) (extension r)"
      unfolding inc by blast
    from fall [OF this] a show "getSupportedExtension r =
        (Some e, r\<lparr>trace := trace r @ [Warn (className (encoder r)) (Some e)]\<rparr>)"
      by simp
  next
    assume a: "(\<forall>y. extension r = Some y \<longrightarrow> y \<notin> set (supportedExtensions (encoder r))) \<and>
      supportedExtensions (encoder r) = []"
    then have "\<not> js_includes (supportedExtensions (encoder r)) (extension r)"
      unfolding inc by blast
    from fall [OF this] a show "getSupportedExtension r =
        (None, r\<lparr>trace := trace r @ [Warn (className (encoder r)) None]\<rparr>)"
      by simp
  qed
qed

theorem getSupportedExtension_resolves_witness:
  "extension mov_recorder = Some ''mov'' \<and>
   supportedExtensions (encoder mov_recorder) = [''mp4'', ''webm''] \<and>
   getSupportedExtension mov_recorder =
     (Some ''mp4'',
      mov_recorder\<lparr>trace := trace mov_recorder @ [Warn ''TestEncoder'' (Some ''mp4'')]\<rparr>) \<and>
   extension (recorder (Fin 1) (Fin 2)) = Some ''mp4'' \<and>
   ''mp4'' \<in> set (supportedExtensions (encoder (recorder (Fin 1) (Fin 2)))) \<and>
   getSupportedExtension (recorder (Fin 1) (Fin 2)) = (Some ''mp4'', recorder (Fin 1) (Fin 2))"
proof -
  have e: "extension mov_recorder = Some ''mov''"
    and s: "supportedExtensions (encoder mov_recorder) = [''mp4'', ''webm'']"
    and n: "className (encoder mov_recorder) = ''TestEncoder''"
    by (simp_all add: mov_recorder_def defs)
  have k: "extension (recorder (Fin 1) (Fin 2)) = Some ''mp4''"
    and m: "''mp4'' \<in> set (supportedExtensions (encoder (recorder (Fin 1) (Fin 2))))"
    by (simp_all add: defs)
  from getSupportedExtension_resolves [of mov_recorder "''mov''" "''mp4''" "[''webm'']"]
    getSupportedExtension_resolves [of "recorder (Fin 1) (Fin 2)" "''mp4''" "''mp4''" "[''webm'']"]
    e s n k m
  show ?thesis by simp
qed

text \<open>
  C7: the encoder the constructor binds is the one the selection policy of the
  specification names: the supplied encoder, unchanged, else GIF for \<open>gif\<close>, else the
  frame-sequence encoder for \<open>png\<close> and \<open>jpg\<close>, else WebCodecs when supported, else
  H264MP4. The extension is the one of the options merged over the defaults.
\<close>

theorem constructor_selects_encoder:
  "encoder (constructor mk isWebCodecsSupported c options) =
     backend_encoder mk (spread defaultOptions options)
       (spec_selection (opt_encoder options)
          (opt_extension (spread defaultOptions options)) isWebCodecsSupported)"
proof -
  have inc: "js_includes [''png'', ''jpg''] e \<longleftrightarrow> e = Some ''png'' \<or> e = Some ''jpg''" for e
    by (cases e) auto
  show ?thesis
    by (cases "opt_encoder options")
       (simp_all add: constructor_def spec_selection_def spread_def defaultOptions_def
          updateStatus_def Let_def inc)
qed

subsection \<open>Width and height\<close>

text \<open>
  C9: the claim is that a read of \<open>width\<close> (or \<open>height\<close>) after an assignment returns the
  assigned value. The setter writes to the encoder and the getter reads the surface: on
  a 640 by 480 canvas, the reads after assigning 1280 and 720 still give 640 and 480.
\<close>

theorem width_setter_ignored:
  "get_width (set_width 1280 (recorder (Fin 1) (Fin 2))) = 640 \<and>
   get_height (set_height 720 (recorder (Fin 1) (Fin 2))) = 480"
  by (simp add: get_width_def get_height_def set_width_def set_height_def defs)

subsection \<open>The pixel path\<close>

lemma typed_set_fits:
  "0 \<le> off \<Longrightarrow> nat off + length src \<le> length t \<Longrightarrow>
   typed_set t src off = Inr (take (nat off) t @ src @ drop (nat off + length src) t)"
  by (auto simp: typed_set_def)

lemma nth_overwrite:
  assumes "a + length src \<le> length t" "idx < length t"
  shows "(take a t @ src @ drop (a + length src) t) ! idx =
         (if idx < a then t ! idx else if idx < a + length src then src ! (idx - a) else t ! idx)"
  using assms by (auto simp: nth_append min_def)

lemma subarray_row:
  "b + n \<le> length a \<Longrightarrow> length (subarray a b (b + n)) = n"
  "b + n \<le> length a \<Longrightarrow> c < n \<Longrightarrow> subarray a b (b + n) ! c = a ! (b + c)"
  by (simp_all add: subarray_def)

lemma row_index:
  fixes R :: nat
  assumes "c < R"
  shows "j * R + c < m * R \<longleftrightarrow> j < m"
proof
  assume "j * R + c < m * R"
  then have "j * R < m * R" by linarith
  then show "j < m" by (simp only: mult_less_cancel2)
next
  assume "j < m"
  then have "Suc j \<le> m" by simp
  then have "Suc j * R \<le> m * R" by (rule mult_le_mono1)
  with assms show "j * R + c < m * R" by simp
qed

lemma flip_loop_rows:
  assumes "length pixels = w * h * 4" "length fl = w * h * 4" "k \<le> h"
    and "\<forall>j c. h - k \<le> j \<and> j < h \<and> c < w * 4 \<longrightarrow>
           fl ! (j * (w * 4) + c) = pixels ! ((h - 1 - j) * (w * 4) + c)"
    and "0 < w"
  shows "\<exists>out. flip_loop (k * (w * 4)) w h pixels fl = Inr out \<and> length out = w * h * 4 \<and>
           (\<forall>j c. j < h \<and> c < w * 4 \<longrightarrow>
              out ! (j * (w * 4) + c) = pixels ! ((h - 1 - j) * (w * 4) + c))"
  using assms
proof (induction "h - k" arbitrary: k fl)
  case 0
  then have "k = h" by simp
  then have "\<not> k * (w * 4) < w * h * 4" by (simp add: mult.commute)
  then have "flip_loop (k * (w * 4)) w h pixels fl = Inr fl"
    by (subst flip_loop.simps) auto
  with 0 \<open>k = h\<close> show ?case by simp
next
  case (Suc n)
  define R where "R = w * 4"
  define off where "off = (h - 1 - k) * R"
  define src where "src = subarray pixels (k * R) (k * R + R)"
  define fl' where "fl' = take off fl @ src @ drop (off + length src) fl"
  from Suc.hyps(2) have kh: "k < h" by simp
  have L: "w * h * 4 = h * R" by (simp add: R_def)
  have "Suc k * R \<le> h * R" using kh by (intro mult_le_mono1) simp
  then have src_in: "k * R + R \<le> length pixels" using Suc.prems(1) L by simp
  then have lsrc: "length src = R" by (simp add: src_def subarray_row)
  have "Suc (h - 1 - k) * R \<le> h * R" using kh by (intro mult_le_mono1) simp
  then have off_in: "off + length src \<le> length fl" using Suc.prems(2) L lsrc by (simp add: off_def)
  have offint: "(int h - 1) * int (w * 4) - int (k * (w * 4)) = int off"
  proof -
    have "int off = (int h - 1 - int k) * int R" using kh by (simp add: off_def of_nat_diff)
    then show ?thesis by (simp add: R_def algebra_simps)
  qed
  have set_eq: "typed_set fl (subarray pixels (k * (w * 4)) (k * (w * 4) + w * 4))
                  ((int h - 1) * int (w * 4) - int (k * (w * 4))) = Inr fl'"
    unfolding offint using off_in typed_set_fits [of "int off" src fl]
    by (simp add: fl'_def src_def R_def)
  have guard: "k * (w * 4) < w * h * 4"
    using kh Suc.prems(5) by (simp add: mult.commute [of w h] mult.assoc)
  have unfold: "flip_loop (k * (w * 4)) w h pixels fl = flip_loop (Suc k * (w * 4)) w h pixels fl'"
    using guard set_eq by (subst flip_loop.simps) (simp add: add.commute)
  have lfl': "length fl' = w * h * 4" using off_in Suc.prems(2) by (simp add: fl'_def)
  have inv': "\<forall>j c. h - Suc k \<le> j \<and> j < h \<and> c < w * 4 \<longrightarrow>
           fl' ! (j * (w * 4) + c) = pixels ! ((h - 1 - j) * (w * 4) + c)"
  proof (intro allI impI)
    fix j c assume a: "h - Suc k \<le> j \<and> j < h \<and> c < w * 4"
    then have c: "c < R" and j: "j < h" by (simp_all add: R_def)
    have idx: "j * R + c < length fl" using row_index [OF c, of j h] j Suc.prems(2) L by simp
    have nth: "fl' ! (j * R + c) =
       (if j * R + c < off then fl ! (j * R + c)
        else if j * R + c < off + length src then src ! (j * R + c - off) else fl ! (j * R + c))"
      unfolding fl'_def by (rule nth_overwrite [OF off_in idx])
    show "fl' ! (j * (w * 4) + c) = pixels ! ((h - 1 - j) * (w * 4) + c)"
    proof (cases "j = h - 1 - k")
      case True
      then have "j * R + c - off = c" and "\<not> j * R + c < off" and "j * R + c < off + length src"
        using c lsrc by (simp_all add: off_def)
      moreover have "h - 1 - j = k" using True kh by simp
      ultimately show ?thesis using nth subarray_row(2) [OF src_in c] by (simp add: src_def R_def)
    next
      case False
      with a kh have j': "h - k \<le> j" by linarith
      then have "Suc (h - 1 - k) \<le> j" using kh by simp
      then have "Suc (h - 1 - k) * R \<le> j * R" by (rule mult_le_mono1)
      then have "\<not> j * R + c < off + length src" using lsrc by (simp add: off_def)
      then have "fl' ! (j * R + c) = fl ! (j * R + c)" using nth by simp
      with Suc.prems(4) j' j a show ?thesis by (simp add: R_def)
    qed
  qed
  have "n = h - Suc k" using Suc.hyps(2) by simp
  from Suc.hyps(1) [OF this Suc.prems(1) lfl' _ inv' Suc.prems(5)] kh unfold show ?case by simp
qed


lemma subarray_eqI:
  assumes "b + n \<le> length a" "b' + n \<le> length a'" "\<forall>c<n. a ! (b + c) = a' ! (b' + c)"
  shows "subarray a b (b + n) = subarray a' b' (b' + n)"
  using assms by (intro nth_equalityI) (simp_all add: subarray_row)

lemma length_written: "length (written (Uint8Array n) bytes) = n"
  by (simp add: written_def Uint8Array_def)

text \<open>
  C8: on a context exposing a non-zero \<open>drawingBufferWidth\<close>, the \<open>imageData\<close> frame is
  the buffer read by \<open>readPixels\<close> with its rows in reverse order: row \<open>j\<close> of the frame
  is row \<open>height - 1 - j\<close> of what was read, for every \<open>j\<close> below the height. The loop
  never throws and the frame has \<open>width * height * 4\<close> bytes.
\<close>

theorem getFrame_imageData_flipped:
  assumes "drawingBufferWidth (ctx r) = Some w" "0 < w"
    and "drawingBufferHeight (ctx r) = Some h"
    and "readPixels (ctx r) 0 0 w h = Inr bytes"
  shows "\<exists>out. getFrame r (Some ''imageData'') = Inr (Pixels out) \<and>
           length out = w * h * 4 \<and>
           (\<forall>j<h. subarray out (j * (w * 4)) (j * (w * 4) + w * 4) =
                   subarray (written (Uint8Array (w * h * 4)) bytes)
                     ((h - 1 - j) * (w * 4)) ((h - 1 - j) * (w * 4) + w * 4))"
proof -
  define pixels where "pixels = written (Uint8Array (w * h * 4)) bytes"
  have lp: "length pixels = w * h * 4" by (simp add: pixels_def length_written)
  have lz: "length (Uint8Array (w * h * 4)) = w * h * 4" by (simp add: Uint8Array_def)
  have "\<exists>out. flip_loop (0 * (w * 4)) w h pixels (Uint8Array (w * h * 4)) = Inr out \<and>
          length out = w * h * 4 \<and>
          (\<forall>j c. j < h \<and> c < w * 4 \<longrightarrow>
             out ! (j * (w * 4) + c) = pixels ! ((h - 1 - j) * (w * 4) + c))"
    by (rule flip_loop_rows [OF lp lz]) (use assms(2) in auto)
  then obtain out where out: "flip_loop 0 w h pixels (Uint8Array (w * h * 4)) = Inr out"
    and lo: "length out = w * h * 4"
    and rows: "\<forall>j c. j < h \<and> c < w * 4 \<longrightarrow>
              out ! (j * (w * 4) + c) = pixels ! ((h - 1 - j) * (w * 4) + c)"
    by auto
  obtain w' where w': "w = Suc w'" using assms(2) by (cases w) auto
  have g: "getFrame r (Some ''imageData'') = Inr (Pixels out)"
    using assms(1,3,4) out unfolding getFrame_def pixels_def w' by (simp add: Let_def)
  have "subarray out (j * (w * 4)) (j * (w * 4) + w * 4) =
        subarray pixels ((h - 1 - j) * (w * 4)) ((h - 1 - j) * (w * 4) + w * 4)" if j: "j < h" for j
  proof (rule subarray_eqI)
    have "Suc j * (w * 4) \<le> h * (w * 4)" using j by (intro mult_le_mono1) simp
    then show "j * (w * 4) + w * 4 \<le> length out" using lo by (simp add: mult.commute [of w h] mult.assoc)
    have "Suc (h - 1 - j) * (w * 4) \<le> h * (w * 4)" using j by (intro mult_le_mono1) simp
    then show "(h - 1 - j) * (w * 4) + w * 4 \<le> length pixels"
      using lp by (simp add: mult.commute [of w h] mult.assoc)
    show "\<forall>c<w * 4. out ! (j * (w * 4) + c) = pixels ! ((h - 1 - j) * (w * 4) + c)"
      using rows j by simp
  qed
  with g lo show ?thesis unfolding pixels_def by blast
qed

theorem getFrame_imageData_flipped_witness:
  "drawingBufferWidth (ctx webgl_recorder) = Some 1 \<and>
   drawingBufferHeight (ctx webgl_recorder) = Some 3 \<and>
   readPixels (ctx webgl_recorder) 0 0 1 3 = Inr [1, 2, 3, 4, 5, 6, 7, 8, 9, 10, 11, 12] \<and>
   (\<exists>out. getFrame webgl_recorder (Some ''imageData'') = Inr (Pixels out) \<and> length out = 12 \<and>
      subarray out 0 4 = [9, 10, 11, 12] \<and> subarray out 4 8 = [5, 6, 7, 8] \<and>
      subarray out 8 12 = [1, 2, 3, 4])"
proof -
  have c: "drawingBufferWidth (ctx webgl_recorder) = Some 1"
    "drawingBufferHeight (ctx webgl_recorder) = Some 3"
    "readPixels (ctx webgl_recorder) 0 0 1 3 = Inr [1, 2, 3, 4, 5, 6, 7, 8, 9, 10, 11, 12]"
    by (simp_all add: webgl_recorder_def webgl_def constructor_def updateStatus_def Let_def)
  have w: "written (Uint8Array 12) [1, 2, 3, 4, 5, 6, 7, 8, 9, 10, 11, 12]
           = [1, 2, 3, 4, 5, 6, 7, 8, 9, 10, 11, 12]"
    by (simp add: written_def Uint8Array_def)
  from getFrame_imageData_flipped [OF c(1) _ c(2) c(3)]
  obtain out where o: "getFrame webgl_recorder (Some ''imageData'') = Inr (Pixels out)"
    "length out = 1 * 3 * 4"
    "\<forall>j<3. subarray out (j * (1 * 4)) (j * (1 * 4) + 1 * 4) =
        subarray (written (Uint8Array (1 * 3 * 4)) [1, 2, 3, 4, 5, 6, 7, 8, 9, 10, 11, 12])
          ((3 - 1 - j) * (1 * 4)) ((3 - 1 - j) * (1 * 4) + 1 * 4)"
    by auto
  have "subarray out 0 4 = [9, 10, 11, 12]"
    using o(3) [rule_format, of 0] by (simp add: w) (simp add: subarray_def)
  moreover have "subarray out 4 8 = [5, 6, 7, 8]"
    using o(3) [rule_format, of 1] by (simp add: w) (simp add: subarray_def)
  moreover have "subarray out 8 12 = [1, 2, 3, 4]"
    using o(3) [rule_format, of 2] by (simp add: w) (simp add: subarray_def)
  ultimately have "subarray out 0 4 = [9, 10, 11, 12]" "subarray out 4 8 = [5, 6, 7, 8]"
    "subarray out 8 12 = [1, 2, 3, 4]" by simp_all
  with c o show ?thesis by simp
qed


subsection \<open>The lifecycle\<close>

lemma observed_append: "observed (es @ fs) = observed es @ observed fs"
  by (induction es rule: observed.induct) simp_all

lemma status_values:
  "RecorderStatus ''Ready'' = Some 0" "RecorderStatus ''Initializing'' = Some 1"
  "RecorderStatus ''Initialized'' = None" "RecorderStatus ''Recording'' = Some 2"
  "RecorderStatus ''Stopping'' = Some 3" "RecorderStatus ''Stopped'' = Some 4"
  by (simp_all add: RecorderStatus_def)

lemma status_of_values:
  "status_of (Some 0) = Some Ready" "status_of (Some 1) = Some Initializing"
  "status_of (Some (Suc 0)) = Some Initializing"
  "status_of (Some 2) = Some Recording" "status_of (Some 3) = Some Stopping"
  "status_of (Some 4) = Some Stopped" "status_of None = None"
  by (simp_all add: status_of_def spec_status_order_def status_values)

lemma view_stop:
  "view (fst (stop r)) = view r \<and> status r \<noteq> Some 2 \<or>
   status r = Some 2 \<and>
     (view (fst (stop r)) = (Some 3, snd (view r) @ [Some 3]) \<or>
      view (fst (stop r)) = (Some 4, snd (view r) @ [Some 3, Some 4]))"
  by (auto simp: stop_def status_values view_def updateStatus_def observed_append Let_def
      split: sum.splits option.splits)

lemma view_step:
  "view (fst (step r)) = view r \<or>
   status r = Some 2 \<and>
     (view (fst (step r)) = (Some 3, snd (view r) @ [Some 3]) \<or>
      view (fst (step r)) = (Some 4, snd (view r) @ [Some 3, Some 4]))"
proof (cases "status r = RecorderStatus ''Recording'' \<and>
         js_lt (toNumber (frame r)) (toNumber (frameTotal r))")
  case True
  then have "view (fst (step r)) = view r"
    by (auto simp: step_def view_def observed_append Let_def split: sum.splits)
  then show ?thesis by simp
next
  case False
  then have "fst (step r) = fst (stop r)"
    by (auto simp: step_def split: prod.splits sum.splits)
  with view_stop [of r] show ?thesis by auto
qed

lemma view_dispose: "view (fst (dispose r)) = view r"
  by (auto simp: dispose_def view_def observed_append Let_def split: sum.splits)

lemma getSupportedExtension_fields:
  "status (snd (getSupportedExtension r)) = status r"
  "encoder (snd (getSupportedExtension r)) = encoder r"
  "ctx (snd (getSupportedExtension r)) = ctx r"
  "duration (snd (getSupportedExtension r)) = duration r"
  "frameRate (snd (getSupportedExtension r)) = frameRate r"
  "frame (snd (getSupportedExtension r)) = frame r"
  "time (snd (getSupportedExtension r)) = time r"
  "deltaTime (snd (getSupportedExtension r)) = deltaTime r"
  "frameTotal (snd (getSupportedExtension r)) = frameTotal r"
  "observed (trace (snd (getSupportedExtension r))) = observed (trace r)"
  by (simp_all add: getSupportedExtension_def observed_append Let_def)

lemma init_outcome:
  "(\<exists>e. snd (init r) = Inl e) \<and> view (fst (init r)) = (Some 1, snd (view r) @ [Some 1]) \<or>
   snd (init r) = Inr () \<and> view (fst (init r)) = (None, snd (view r) @ [Some 1, None])"
  by (simp add: init_def split_beta getSupportedExtension_fields status_values view_def
      updateStatus_def observed_append Let_def split: sum.split)

lemma init_fields:
  "duration (fst (init r)) = duration r"
  "frameRate (fst (init r)) = frameRate r"
  "frame (fst (init r)) = Some (Fin 0)"
  "time (fst (init r)) = Some (Fin 0)"
  "deltaTime (fst (init r)) = Some (js_div (Fin 1) (toNumber (frameRate r)))"
  "frameTotal (fst (init r)) = Some (js_mul (toNumber (duration r)) (toNumber (frameRate r)))"
  by (simp_all add: init_def split_beta getSupportedExtension_fields updateStatus_def Let_def
      split: sum.split)

lemma start_unfold:
  "start now r =
     (case init r of (r1, Inl e) \<Rightarrow> (r1, Inl e) | (r1, Inr u) \<Rightarrow> step (arm now r1))"
proof (cases "init r")
  case (Pair r1 res)
  show ?thesis
  proof (cases res)
    case (Inl e)
    with Pair show ?thesis by (simp add: start_def)
  next
    case (Inr u)
    with Pair init_outcome [of r] have "status r1 = RecorderStatus ''Initialized''"
      by (auto simp: view_def status_values)
    with Pair Inr show ?thesis by (simp add: start_def arm_def Let_def)
  qed
qed

lemma arm_fields:
  "view (arm now r) = (Some 2, snd (view r) @ [Some 2])"
  "duration (arm now r) = duration r" "frameRate (arm now r) = frameRate r"
  "frame (arm now r) = frame r" "time (arm now r) = time r"
  "deltaTime (arm now r) = deltaTime r" "frameTotal (arm now r) = frameTotal r"
  by (simp_all add: arm_def view_def updateStatus_def observed_append status_values Let_def)

lemma view_start:
  "view (fst (start now r)) \<in>
     {(Some 1, snd (view r) @ [Some 1]),
      (Some 2, snd (view r) @ [Some 1, None, Some 2]),
      (Some 3, snd (view r) @ [Some 1, None, Some 2, Some 3]),
      (Some 4, snd (view r) @ [Some 1, None, Some 2, Some 3, Some 4])}"
proof (cases "init r")
  case (Pair r1 res)
  show ?thesis
  proof (cases res)
    case (Inl e)
    with Pair init_outcome [of r] show ?thesis by (simp add: start_unfold)
  next
    case (Inr u)
    with Pair init_outcome [of r]
    have v1: "view r1 = (None, snd (view r) @ [Some 1, None])" by simp
    have s: "fst (start now r) = fst (step (arm now r1))"
      using Pair Inr by (simp add: start_unfold)
    from view_step [of "arm now r1"] show ?thesis
      unfolding s arm_fields(1) v1 by auto
  qed
qed

lemma fresh_values: "fresh r \<longleftrightarrow> view r = (Some 0, [Some 0])"
  by (simp add: fresh_def)

lemma lifecycle_values:
  "lifecycle r \<longleftrightarrow>
     view r \<in> {(Some 0, [Some 0]), (Some 1, [Some 0, Some 1]), (None, [Some 0, Some 1, None]),
               (Some 2, [Some 0, Some 1, None, Some 2]),
               (Some 3, [Some 0, Some 1, None, Some 2, Some 3]),
               (Some 4, [Some 0, Some 1, None, Some 2, Some 3, Some 4])}"
  by (simp add: lifecycle_def)

lemma status_view: "status r = fst (view r)"
  by (simp add: view_def)

lemma fst_outcome: "fst (outcome p) = fst p"
  by (cases p rule: outcome.cases) simp_all

lemma exec_fresh:
  assumes "fresh r" "\<not> calls_init c"
  shows "fresh (fst (exec c r))"
proof (cases c)
  case Step
  with assms view_step [of r] show ?thesis by (auto simp: fst_outcome fresh_values status_view)
next
  case Stop
  with assms view_stop [of r] show ?thesis by (auto simp: fst_outcome fresh_values status_view)
next
  case Dispose
  with assms view_dispose [of r] show ?thesis by (simp add: fst_outcome fresh_values)
qed (use assms in simp_all)

lemma exec_lifecycle:
  assumes "lifecycle r" "\<not> calls_init c"
  shows "lifecycle (fst (exec c r))"
proof (cases c)
  case Step
  with assms view_step [of r] show ?thesis
    by (auto simp: fst_outcome lifecycle_values status_view)
next
  case Stop
  with assms view_stop [of r] show ?thesis
    by (auto simp: fst_outcome lifecycle_values status_view)
next
  case Dispose
  with assms view_dispose [of r] show ?thesis by (simp add: fst_outcome lifecycle_values)
qed (use assms in simp_all)

lemma exec_init_lifecycle:
  assumes "fresh r" "calls_init c"
  shows "lifecycle (fst (exec c r))"
proof (cases c)
  case (Start now)
  with assms view_start [of now r] show ?thesis
    by (auto simp: fst_outcome lifecycle_values fresh_values)
next
  case Init
  with assms init_outcome [of r] show ?thesis
    by (auto simp: fst_outcome lifecycle_values fresh_values)
qed (use assms in simp_all)

lemma run_lifecycle:
  "lifecycle r \<Longrightarrow> \<forall>c \<in> set cs. \<not> calls_init c \<Longrightarrow> lifecycle (run cs r)"
  by (induction cs arbitrary: r) (simp_all add: exec_lifecycle)

lemma run_fresh_lifecycle:
  "fresh r \<Longrightarrow> length (filter calls_init cs) \<le> 1 \<Longrightarrow> lifecycle (run cs r)"
proof (induction cs arbitrary: r)
  case Nil
  then show ?case by (simp add: lifecycle_values fresh_values)
next
  case (Cons c cs)
  show ?case
  proof (cases "calls_init c")
    case True
    with Cons.prems have "\<forall>c \<in> set cs. \<not> calls_init c" by (simp add: filter_empty_conv)
    with exec_init_lifecycle [OF Cons.prems(1) True] show ?thesis by (simp add: run_lifecycle)
  next
    case False
    with Cons.prems Cons.IH [OF exec_fresh [OF Cons.prems(1) False]] show ?thesis by simp
  qed
qed

lemma constructor_fresh: "fresh (constructor mk hw c options)"
  by (simp add: fresh_values constructor_def view_def updateStatus_def status_values Let_def)

text \<open>
  The observer receives one value that stands for no state: \<open>init\<close> reports
  \<open>RecorderStatus.Initialized\<close>, a key the enum does not have. In a session that
  initialises at most once, every other value delivered is a state.
\<close>

lemma delivered_all_but_one:
  assumes "length (filter calls_init cs) \<le> 1"
  shows "length (observed (trace (run cs (constructor mk hw c options)))) \<le>
         length (delivered (run cs (constructor mk hw c options))) + 1"
proof -
  have "lifecycle (run cs (constructor mk hw c options))"
    using constructor_fresh assms by (rule run_fresh_lifecycle)
  then show ?thesis
    by (auto simp: lifecycle_values view_def delivered_def List.map_filter_simps
        status_of_values)
qed

text \<open>
  C2, as stated, for every execution: false, since nothing stops a second \<open>start()\<close>,
  which reports Initializing again after Recording.
\<close>

theorem status_sequence_restart_counterexample:
  "\<not> subseq (delivered (run [Start 0, Start 0] (recorder (Fin 1) (Fin 2)))) spec_status_order"
  by (simp add: delivered_def List.map_filter_simps status_of_values spec_status_order_def
      defs small_sums small_products js_lt_Fin)

text \<open>
  C2, amended: in every execution of one recorder in which \<open>init()\<close> runs at most once
  (at most one call of \<open>start()\<close> or \<open>init()\<close>, among any calls of \<open>step()\<close>,
  \<open>stop()\<close> and \<open>dispose()\<close>, resolved or rejected), the states delivered to the
  observer are a subsequence of Ready, Initializing, Initialized, Recording, Stopping,
  Stopped, without repetition.
\<close>

theorem status_sequence_monotone:
  assumes "length (filter calls_init cs) \<le> 1"
  shows "subseq (delivered (run cs (constructor mk hw c options))) spec_status_order \<and>
         distinct (delivered (run cs (constructor mk hw c options)))"
proof -
  have "lifecycle (run cs (constructor mk hw c options))"
    using constructor_fresh assms by (rule run_fresh_lifecycle)
  then have "delivered (run cs (constructor mk hw c options)) \<in>
      {[Ready], [Ready, Initializing], [Ready, Initializing, Recording],
       [Ready, Initializing, Recording, Stopping],
       [Ready, Initializing, Recording, Stopping, Stopped]}"
    by (auto simp: lifecycle_values view_def delivered_def List.map_filter_simps
        status_of_values)
  then show ?thesis
    by (auto simp: spec_status_order_def)
qed

theorem status_sequence_monotone_witness:
  "length (filter calls_init [Step, Start 0, Step, Step, Stop, Step]) \<le> 1 \<and>
   delivered (run [Step, Start 0, Step, Step, Stop, Step] (recorder (Fin 1) (Fin 2))) =
     [Ready, Initializing, Recording, Stopping, Stopped] \<and>
   subseq (delivered (run [Step, Start 0, Step, Step, Stop, Step] (recorder (Fin 1) (Fin 2))))
     spec_status_order"
proof -
  have h: "length (filter calls_init [Step, Start 0, Step, Step, Stop, Step]) \<le> 1" by simp
  have "delivered (run [Step, Start 0, Step, Step, Stop, Step] (recorder (Fin 1) (Fin 2))) =
     [Ready, Initializing, Recording, Stopping, Stopped]"
    by (simp add: delivered_def List.map_filter_simps status_of_values defs small_sums
        small_products js_lt_Fin)
  with h status_sequence_monotone [OF h, of test_mk True canvas2d "test_options (Fin 1) (Fin 2)"]
  show ?thesis by (simp add: recorder_def)
qed

subsection \<open>Time and frame count\<close>

lemma js_add_pos:
  "0 \<le> a \<Longrightarrow> 0 < b \<Longrightarrow> js_add (Fin a) (Fin b) = round_double (a + b)"
  by (simp add: js_add_def is_infinite_def add_nonneg_eq_0_iff)

lemma js_add_PInf: "js_add PInf (Fin b) = PInf"
  by (simp add: js_add_def is_infinite_def)

lemma round_double_rel:
  assumes "2 powi (- 1022) \<le> x"
  shows "round_double x = PInf \<or>
         (\<exists>y. round_double x = Fin y \<and> x * (1 - 1 / 2 ^ 53) \<le> y \<and> y \<le> x * (1 + 1 / 2 ^ 53))"
proof -
  from round_double_error [OF assms] obtain y where y: "\<bar>y - x\<bar> \<le> x / 2 ^ 53"
    "round_double x = (if 2 powi 1024 \<le> y then PInf else Fin y)"
    by blast
  define c where "c = x / 2 ^ 53"
  from y(1) have "\<bar>y - x\<bar> \<le> c" by (simp only: c_def)
  then have "x - c \<le> y" "y \<le> x + c" by linarith+
  moreover have "x * (1 - 1 / 2 ^ 53) = x - c" "x * (1 + 1 / 2 ^ 53) = x + c"
    by (simp_all add: c_def algebra_simps)
  ultimately have "x * (1 - 1 / 2 ^ 53) \<le> y \<and> y \<le> x * (1 + 1 / 2 ^ 53)"
    by simp
  with y(2) show ?thesis by (cases "2 powi 1024 \<le> y") simp_all
qed

lemma time_after_bound:
  fixes s dl :: rat
  assumes "2 powi (- 1022) \<le> dl" "0 < s" "s * (1 - 1 / 2 ^ 53) \<le> dl" "dl \<le> s * (1 + 1 / 2 ^ 53)"
  shows "time_after k (Fin dl) = PInf \<or>
         (\<exists>t. time_after k (Fin dl) = Fin t \<and>
              of_nat k * s * (1 - 1 / 2 ^ 53) ^ (k + 1) \<le> t \<and>
              t \<le> of_nat k * s * (1 + 1 / 2 ^ 53) ^ (k + 1))"
proof (induction k)
  case 0
  show ?case by simp
next
  case (Suc k)
  define lo :: rat where "lo = 1 - 1 / 2 ^ 53"
  define hi :: rat where "hi = 1 + 1 / 2 ^ 53"
  have lo: "0 < lo" "lo \<le> 1" and hi: "1 \<le> hi" by (simp_all add: lo_def hi_def)
  have dlpos: "0 < dl"
  proof -
    have "(0::rat) < 2 powi (- 1022)" by simp
    with assms(1) show ?thesis by linarith
  qed
  from Suc.IH show ?case
  proof
    assume "time_after k (Fin dl) = PInf"
    then show ?thesis by (simp add: js_add_PInf)
  next
    assume "\<exists>t. time_after k (Fin dl) = Fin t \<and>
              of_nat k * s * (1 - 1 / 2 ^ 53) ^ (k + 1) \<le> t \<and>
              t \<le> of_nat k * s * (1 + 1 / 2 ^ 53) ^ (k + 1)"
    then obtain t where t: "time_after k (Fin dl) = Fin t"
      "of_nat k * s * lo ^ (k + 1) \<le> t" "t \<le> of_nat k * s * hi ^ (k + 1)"
      by (auto simp: lo_def hi_def)
    have "0 \<le> of_nat k * s * lo ^ (k + 1)" using assms(2) lo(1) by simp
    with t(2) have tpos: "0 \<le> t" by linarith
    have step: "time_after (Suc k) (Fin dl) = round_double (t + dl)"
      using t(1) tpos dlpos by (simp add: js_add_pos)
    have big: "2 powi (- 1022) \<le> t + dl" using assms(1) tpos by linarith
    have up: "t + dl \<le> of_nat (Suc k) * s * hi ^ (k + 1)"
    proof -
      have "hi ^ 1 \<le> hi ^ (k + 1)" using hi by (intro power_increasing) simp_all
      then have "s * hi \<le> s * hi ^ (k + 1)" using assms(2) by simp
      with assms(4) have "dl \<le> s * hi ^ (k + 1)" unfolding hi_def [symmetric] by linarith
      with t(3) have "t + dl \<le> of_nat k * s * hi ^ (k + 1) + s * hi ^ (k + 1)" by linarith
      then show ?thesis by (simp add: algebra_simps)
    qed
    have down: "of_nat (Suc k) * s * lo ^ (k + 1) \<le> t + dl"
    proof -
      have "lo ^ (k + 1) \<le> lo ^ 1" using lo by (intro power_decreasing) simp_all
      then have "s * lo ^ (k + 1) \<le> s * lo" using assms(2) by simp
      with assms(3) have "s * lo ^ (k + 1) \<le> dl" unfolding lo_def [symmetric] by linarith
      with t(2) have "of_nat k * s * lo ^ (k + 1) + s * lo ^ (k + 1) \<le> t + dl" by linarith
      then show ?thesis by (simp add: algebra_simps)
    qed
    from round_double_rel [OF big] show ?thesis
    proof
      assume "round_double (t + dl) = PInf"
      with step show ?thesis by simp
    next
      assume "\<exists>y. round_double (t + dl) = Fin y \<and> (t + dl) * (1 - 1 / 2 ^ 53) \<le> y \<and>
        y \<le> (t + dl) * (1 + 1 / 2 ^ 53)"
      then obtain y where y: "round_double (t + dl) = Fin y" "(t + dl) * lo \<le> y"
        "y \<le> (t + dl) * hi"
        by (auto simp: lo_def hi_def)
      have "(t + dl) * hi \<le> of_nat (Suc k) * s * hi ^ (k + 1) * hi"
        using up hi by (intro mult_right_mono) simp_all
      moreover have "of_nat (Suc k) * s * hi ^ (Suc k + 1) = of_nat (Suc k) * s * hi ^ (k + 1) * hi"
        by simp
      ultimately have u2: "y \<le> of_nat (Suc k) * s * hi ^ (Suc k + 1)" using y(3) by linarith
      have "of_nat (Suc k) * s * lo ^ (k + 1) * lo \<le> (t + dl) * lo"
        using down lo by (intro mult_right_mono) simp_all
      moreover have "of_nat (Suc k) * s * lo ^ (Suc k + 1) = of_nat (Suc k) * s * lo ^ (k + 1) * lo"
        by simp
      ultimately have d2: "of_nat (Suc k) * s * lo ^ (Suc k + 1) \<le> y" using y(2) by linarith
      from step y(1) u2 d2 show ?thesis by (simp add: lo_def hi_def)
    qed
  qed
qed

lemma stop_fields:
  "duration (fst (stop r)) = duration r" "frameRate (fst (stop r)) = frameRate r"
  "deltaTime (fst (stop r)) = deltaTime r" "frameTotal (fst (stop r)) = frameTotal r"
  "frame (fst (stop r)) = frame r" "time (fst (stop r)) = time r"
  by (simp_all add: stop_def updateStatus_def Let_def split_beta split: sum.split option.split)

lemma dispose_fields:
  "duration (fst (dispose r)) = duration r" "frameRate (fst (dispose r)) = frameRate r"
  "deltaTime (fst (dispose r)) = deltaTime r" "frameTotal (fst (dispose r)) = frameTotal r"
  "frame (fst (dispose r)) = frame r" "time (fst (dispose r)) = time r"
  by (simp_all add: dispose_def Let_def split: sum.split)

lemma step_else:
  assumes "\<not> (status r = RecorderStatus ''Recording'' \<and>
       js_lt (toNumber (frame r)) (toNumber (frameTotal r)))"
  shows "fst (step r) = fst (stop r)"
proof -
  from assms have "step r =
      (case stop r of (r1, Inl e) \<Rightarrow> (r1, Inl e) | (r1, Inr buffer) \<Rightarrow> (r1, Inr ()))"
    unfolding step_def by (rule if_not_P)
  then show ?thesis by (cases "stop r" rule: outcome.cases) simp_all
qed

lemma step_then:
  assumes "status r = RecorderStatus ''Recording''"
    and "js_lt (toNumber (frame r)) (toNumber (frameTotal r))"
  shows "view (fst (step r)) = view r \<and>
         (frame (fst (step r)) = frame r \<and> time (fst (step r)) = time r \<or>
          frame (fst (step r)) = Some (js_add (toNumber (frame r)) (Fin 1)) \<and>
          time (fst (step r)) = Some (js_add (toNumber (time r)) (toNumber (deltaTime r))))"
  using assms
  by (simp add: step_def view_def observed_append Let_def split: sum.split)

lemma step_fields_conj:
  "duration (fst (step r)) = duration r \<and> frameRate (fst (step r)) = frameRate r \<and>
   deltaTime (fst (step r)) = deltaTime r \<and> frameTotal (fst (step r)) = frameTotal r"
proof (cases "status r = RecorderStatus ''Recording'' \<and>
         js_lt (toNumber (frame r)) (toNumber (frameTotal r))")
  case True
  then show ?thesis by (simp add: step_def Let_def split: sum.split)
next
  case False
  then show ?thesis by (simp add: step_else stop_fields)
qed

lemmas step_fields =
  step_fields_conj [THEN conjunct1]
  step_fields_conj [THEN conjunct2, THEN conjunct1]
  step_fields_conj [THEN conjunct2, THEN conjunct2, THEN conjunct1]
  step_fields_conj [THEN conjunct2, THEN conjunct2, THEN conjunct2]

lemma time_after_PInf: "time_after (Suc k) PInf = PInf"
  by (induction k) (simp_all add: js_add_def is_infinite_def)

lemma time_after_frameRate_bound:
  assumes "0 < fr" "fr \<le> 2 ^ 1021"
  shows "time_after k (js_div (Fin 1) (Fin fr)) = PInf \<or>
         (\<exists>t. time_after k (js_div (Fin 1) (Fin fr)) = Fin t \<and>
              of_nat k / fr * (1 - 1 / 2 ^ 53) ^ (k + 1) \<le> t \<and>
              t \<le> of_nat k / fr * (1 + 1 / 2 ^ 53) ^ (k + 1))"
proof -
  define s where "s = 1 / fr"
  have spos: "0 < s" using assms(1) by (simp add: s_def)
  have "1 / 2 ^ 1021 \<le> s" unfolding s_def using assms by (intro divide_left_mono) simp_all
  moreover have "(2::rat) powi (- 1021) = 1 / 2 ^ 1021" by (simp add: power_int_minus_divide)
  ultimately have s21: "2 powi (- 1021) \<le> s" by simp
  have "(2::rat) powi (- 1022) \<le> 2 powi (- 1021)" by (simp only: pow2_le_iff)
  with s21 have s22: "2 powi (- 1022) \<le> s" by linarith
  have d: "js_div (Fin 1) (Fin fr) = round_double s"
    using assms(1) by (simp add: js_div_finite s_def)
  from round_double_rel [OF s22] show ?thesis
  proof
    assume "round_double s = PInf"
    then show ?thesis unfolding d by (cases k) (simp_all del: time_after.simps(2) add: time_after_PInf)
  next
    assume "\<exists>y. round_double s = Fin y \<and> s * (1 - 1 / 2 ^ 53) \<le> y \<and> y \<le> s * (1 + 1 / 2 ^ 53)"
    then obtain dl where dl: "round_double s = Fin dl" "s * (1 - 1 / 2 ^ 53) \<le> dl"
      "dl \<le> s * (1 + 1 / 2 ^ 53)"
      by blast
    define p :: rat where "p = 2 powi (- 1022)"
    have ppos: "0 \<le> p" by (simp add: p_def)
    have p21: "(2::rat) powi (- 1021) = 2 * p"
      using power_int_add [of "2::rat" 1 "- 1022"] by (simp add: p_def)
    have "(1::rat) \<le> 2 * (1 - 1 / 2 ^ 53)" by simp
    with ppos have "p * 1 \<le> p * (2 * (1 - 1 / 2 ^ 53))" by (rule mult_left_mono [rotated])
    then have "2 powi (- 1022) \<le> 2 powi (- 1021) * (1 - 1 / 2 ^ 53 :: rat)"
      unfolding p21 by (simp add: p_def)
    also have "\<dots> \<le> s * (1 - 1 / 2 ^ 53)" using s21 by (intro mult_right_mono) simp_all
    finally have "2 powi (- 1022) \<le> dl" using dl(2) by linarith
    from time_after_bound [OF this spos dl(2,3), of k] show ?thesis
      unfolding d dl(1) by (simp add: s_def)
  qed
qed

lemma timing_invI:
  assumes "deltaTime r = Some (js_div (Fin 1) (toNumber (frameRate r)))"
    and "frameTotal r = Some (js_mul (toNumber (duration r)) (toNumber (frameRate r)))"
    and "k \<le> 2 ^ 53" "frame r = Some (Fin (of_nat k))"
    and "k < 2 ^ 53 \<Longrightarrow> time r = Some (time_after k (js_div (Fin 1) (toNumber (frameRate r))))"
    and "k = 0 \<or> js_lt (Fin (of_nat (k - 1)))
                   (js_mul (toNumber (duration r)) (toNumber (frameRate r)))"
  shows "timing_inv r"
  unfolding timing_inv_def
  by (intro conjI exI [of _ k] impI) (use assms in simp_all)

lemma timing_invD:
  assumes "timing_inv r"
  shows "\<exists>k \<le> 2 ^ 53. frame r = Some (Fin (of_nat k)) \<and>
    (k < 2 ^ 53 \<longrightarrow> time r = Some (time_after k (js_div (Fin 1) (toNumber (frameRate r))))) \<and>
    (k = 0 \<or> js_lt (Fin (of_nat (k - 1)))
                (js_mul (toNumber (duration r)) (toNumber (frameRate r))))"
    and "deltaTime r = Some (js_div (Fin 1) (toNumber (frameRate r)))"
    and "frameTotal r = Some (js_mul (toNumber (duration r)) (toNumber (frameRate r)))"
  using assms unfolding timing_inv_def by simp_all

lemma init_timing: "timing_inv (fst (init r))"
  by (rule timing_invI [where k = 0]) (simp_all add: init_fields)

lemma same_fields_timing:
  assumes "timing_inv r"
    and "duration r' = duration r" "frameRate r' = frameRate r" "deltaTime r' = deltaTime r"
      "frameTotal r' = frameTotal r" "frame r' = frame r" "time r' = time r"
  shows "timing_inv r'"
  using assms(1) unfolding timing_inv_def assms(2-7) .

lemma arm_timing: "timing_inv r \<Longrightarrow> timing_inv (arm now r)"
  by (erule same_fields_timing) (simp_all add: arm_fields)

lemma stop_timing: "timing_inv r \<Longrightarrow> timing_inv (fst (stop r))"
  by (erule same_fields_timing) (simp_all add: stop_fields)

lemma dispose_timing: "timing_inv r \<Longrightarrow> timing_inv (fst (dispose r))"
  by (erule same_fields_timing) (simp_all add: dispose_fields)

lemma step_timing:
  assumes "timing_inv r"
  shows "timing_inv (fst (step r))"
proof (cases "status r = RecorderStatus ''Recording'' \<and>
         js_lt (toNumber (frame r)) (toNumber (frameTotal r))")
  case False
  with assms show ?thesis by (simp add: step_else stop_timing)
next
  case True
  from timing_invD(1) [OF assms] obtain k :: nat where kk: "k \<le> 2 ^ 53 \<and>
    frame r = Some (Fin (of_nat k)) \<and>
    (k < 2 ^ 53 \<longrightarrow> time r = Some (time_after k (js_div (Fin 1) (toNumber (frameRate r))))) \<and>
    (k = 0 \<or> js_lt (Fin (of_nat (k - 1)))
                (js_mul (toNumber (duration r)) (toNumber (frameRate r))))" ..
  note k = kk [THEN conjunct1] kk [THEN conjunct2, THEN conjunct1]
    kk [THEN conjunct2, THEN conjunct2, THEN conjunct1]
    kk [THEN conjunct2, THEN conjunct2, THEN conjunct2]
  note rest = timing_invD(2,3) [OF assms]
  from True k(2) rest(2)
  have below: "js_lt (Fin (of_nat k)) (js_mul (toNumber (duration r)) (toNumber (frameRate r)))"
    by simp
  from True step_then [of r]
  consider "frame (fst (step r)) = frame r" "time (fst (step r)) = time r"
    | "frame (fst (step r)) = Some (js_add (toNumber (frame r)) (Fin 1))"
      "time (fst (step r)) = Some (js_add (toNumber (time r)) (toNumber (deltaTime r)))"
    by auto
  then show ?thesis
  proof cases
    case 1
    with assms show ?thesis by (elim same_fields_timing) (simp_all add: step_fields)
  next
    case 2
    show ?thesis
    proof (cases "k < 2 ^ 53")
      case True
      show ?thesis
      proof (rule timing_invI [where k = "Suc k"])
        show "Suc k \<le> 2 ^ 53" using True by simp
        show "frame (fst (step r)) = Some (Fin (of_nat (Suc k)))"
          using 2(1) k(2) js_add_nat [of k 1] True by simp
        show "time (fst (step r)) =
            Some (time_after (Suc k) (js_div (Fin 1) (toNumber (frameRate (fst (step r))))))"
          using 2(2) k(3) True rest(1) by (simp add: step_fields)
        show "Suc k = 0 \<or> js_lt (Fin (of_nat (Suc k - 1)))
            (js_mul (toNumber (duration (fst (step r)))) (toNumber (frameRate (fst (step r)))))"
          using below by (simp add: step_fields)
      qed (simp_all add: step_fields rest)
    next
      case False
      with k(1) have k53: "k = 2 ^ 53" by simp
      have "js_add (Fin (2 ^ 53)) (Fin 1) = Fin (2 ^ 53)"
        using round_double_inexact by (simp add: js_add_def is_infinite_def)
      with 2(1) k(2) k53 have f: "frame (fst (step r)) = Some (Fin (of_nat k))" by simp
      show ?thesis
      proof (rule timing_invI [where k = k])
        show "k \<le> 2 ^ 53" by (rule k(1))
        show "frame (fst (step r)) = Some (Fin (of_nat k))" by (rule f)
        show "k = 0 \<or> js_lt (Fin (of_nat (k - 1)))
            (js_mul (toNumber (duration (fst (step r)))) (toNumber (frameRate (fst (step r)))))"
          using k(4) by (simp only: step_fields)
        show "time (fst (step r)) =
            Some (time_after k (js_div (Fin 1) (toNumber (frameRate (fst (step r))))))"
          if "k < 2 ^ 53"
          using that False by simp
      qed (simp_all add: step_fields rest)
    qed
  qed
qed

lemma start_state:
  "fst (start now r) = fst (init r) \<and> status (fst (init r)) = Some 1 \<or>
   fst (start now r) = fst (step (arm now (fst (init r)))) \<and> snd (init r) = Inr ()"
proof (cases "init r")
  case (Pair r1 res)
  with init_outcome [of r] show ?thesis
    by (cases res) (auto simp: start_unfold view_def)
qed

lemma start_timing: "timing_inv (fst (start now r))"
  using start_state [of now r] init_timing [of r]
  by (auto simp: arm_timing step_timing)

lemma exec_timing:
  assumes "timing_inv r"
  shows "timing_inv (fst (exec c r))"
  using assms
  by (cases c)
     (simp_all add: fst_outcome start_timing init_timing step_timing stop_timing dispose_timing)

lemma run_timing: "timing_inv r \<Longrightarrow> timing_inv (run cs r)"
  by (induction cs arbitrary: r) (simp_all add: exec_timing)

lemma exec_init_timing:
  assumes "calls_init c"
  shows "timing_inv (fst (exec c r))"
  using assms by (cases c) (simp_all add: fst_outcome start_timing init_timing)

lemma start_fields:
  "frameRate (fst (start now r)) = frameRate r" "duration (fst (start now r)) = duration r"
  using start_state [of now r]
  by (auto simp: init_fields step_fields arm_fields)

lemma exec_fields:
  "frameRate (fst (exec c r)) = frameRate r" "duration (fst (exec c r)) = duration r"
  by (cases c; simp add: fst_outcome init_fields step_fields stop_fields dispose_fields
      start_fields)+

lemma run_fields: "frameRate (run cs r) = frameRate r" "duration (run cs r) = duration r"
  by (induction cs arbitrary: r) (simp_all add: exec_fields)

lemma whole_total_bound:
  assumes "k = 0 \<or> js_lt (Fin (of_nat (k - 1))) T" "js_le (Fin 0) T" "whole_or_infinite T"
  shows "js_le (Fin (of_nat k)) T"
proof (cases T)
  case (Fin q)
  with assms(3) have q: "q = of_int \<lfloor>q\<rfloor>" by simp
  show ?thesis
  proof (cases "k = 0")
    case True
    with assms(2) show ?thesis by simp
  next
    case False
    with assms(1) Fin have "of_nat (k - 1) < q" by (simp add: js_lt_Fin)
    with q have "(of_int (int (k - 1)) :: rat) < of_int \<lfloor>q\<rfloor>" by simp
    then have "int (k - 1) < \<lfloor>q\<rfloor>" by (simp only: of_int_less_iff)
    with False have "int k \<le> \<lfloor>q\<rfloor>" by simp
    then have "(of_int (int k) :: rat) \<le> of_int \<lfloor>q\<rfloor>" by (simp only: of_int_le_iff)
    with q have "of_nat k \<le> q" by simp
    with Fin show ?thesis by (simp add: js_le_def js_lt_Fin)
  qed
next
  case NZero
  with assms(1) have "k = 0" by (simp add: js_lt_def)
  with NZero show ?thesis by (simp add: js_le_def js_lt_def)
next
  case PInf
  then show ?thesis by (simp add: js_le_def js_lt_def)
qed (use assms in simp_all)

lemma timing_inv_view:
  assumes "timing_inv r"
  shows "\<exists>k \<le> 2 ^ 53.
     frame r = Some (Fin (of_nat k)) \<and>
     js_le (Fin 0) (toNumber (frame r)) \<and>
     (k = 0 \<or> js_lt (Fin (of_nat (k - 1))) (toNumber (frameTotal r))) \<and>
     (js_le (Fin 0) (toNumber (frameTotal r)) \<and> whole_or_infinite (toNumber (frameTotal r)) \<longrightarrow>
        js_le (toNumber (frame r)) (toNumber (frameTotal r))) \<and>
     frameTotal r = Some (js_mul (toNumber (duration r)) (toNumber (frameRate r))) \<and>
     deltaTime r = Some (js_div (Fin 1) (toNumber (frameRate r))) \<and>
     (k < 2 ^ 53 \<longrightarrow>
        time r = Some (time_after k (js_div (Fin 1) (toNumber (frameRate r))))) \<and>
     (k < 2 ^ 53 \<and> frameRate r = Some (Fin fr) \<and> 0 < fr \<and> fr \<le> 2 ^ 1021 \<longrightarrow>
        time r = Some PInf \<or>
        (\<exists>t. time r = Some (Fin t) \<and>
             of_nat k / fr * (1 - 1 / 2 ^ 53) ^ (k + 1) \<le> t \<and>
             t \<le> of_nat k / fr * (1 + 1 / 2 ^ 53) ^ (k + 1)))"
proof -
  from timing_invD(1) [OF assms] obtain k :: nat where kk: "k \<le> 2 ^ 53 \<and>
    frame r = Some (Fin (of_nat k)) \<and>
    (k < 2 ^ 53 \<longrightarrow> time r = Some (time_after k (js_div (Fin 1) (toNumber (frameRate r))))) \<and>
    (k = 0 \<or> js_lt (Fin (of_nat (k - 1)))
                (js_mul (toNumber (duration r)) (toNumber (frameRate r))))" ..
  note k = kk [THEN conjunct1] kk [THEN conjunct2, THEN conjunct1]
    kk [THEN conjunct2, THEN conjunct2, THEN conjunct1]
    kk [THEN conjunct2, THEN conjunct2, THEN conjunct2]
  note rest = timing_invD(2,3) [OF assms]
  have total: "toNumber (frameTotal r) = js_mul (toNumber (duration r)) (toNumber (frameRate r))"
    by (simp add: rest(2))
  have fr0: "js_le (Fin 0) (toNumber (frame r))"
    by (simp add: k(2) js_le_def js_lt_Fin)
  have below: "k = 0 \<or> js_lt (Fin (of_nat (k - 1))) (toNumber (frameTotal r))"
    using k(4) by (simp only: total)
  have whole: "js_le (Fin 0) (toNumber (frameTotal r)) \<and>
      whole_or_infinite (toNumber (frameTotal r)) \<longrightarrow>
      js_le (toNumber (frame r)) (toNumber (frameTotal r))"
    using whole_total_bound [OF below] by (simp add: k(2))
  have bound: "k < 2 ^ 53 \<and> frameRate r = Some (Fin fr) \<and> 0 < fr \<and> fr \<le> 2 ^ 1021 \<longrightarrow>
        time r = Some PInf \<or>
        (\<exists>t. time r = Some (Fin t) \<and>
             of_nat k / fr * (1 - 1 / 2 ^ 53) ^ (k + 1) \<le> t \<and>
             t \<le> of_nat k / fr * (1 + 1 / 2 ^ 53) ^ (k + 1))"
  proof
    assume h: "k < 2 ^ 53 \<and> frameRate r = Some (Fin fr) \<and> 0 < fr \<and> fr \<le> 2 ^ 1021"
    from h have t: "time r = Some (time_after k (js_div (Fin 1) (Fin fr)))"
      using k(3) by simp
    from h have "0 < fr" "fr \<le> 2 ^ 1021" by simp_all
    from time_after_frameRate_bound [OF this, of k]
    show "time r = Some PInf \<or>
        (\<exists>t. time r = Some (Fin t) \<and>
             of_nat k / fr * (1 - 1 / 2 ^ 53) ^ (k + 1) \<le> t \<and>
             t \<le> of_nat k / fr * (1 + 1 / 2 ^ 53) ^ (k + 1))"
      unfolding t by simp
  qed
  show ?thesis
    by (intro exI [of _ k] conjI k(1) k(2) fr0 below rest whole bound k(3))
qed


lemma js_add_halves:
  assumes "a + b < 2 ^ 53"
  shows "js_add (Fin (of_nat a / 2)) (Fin (of_nat b / 2)) = Fin (of_nat (a + b) / 2)"
proof (cases "a + b = 0")
  case True
  then show ?thesis by (simp add: js_add_def is_infinite_def)
next
  case False
  define x :: rat where "x = of_int (int (a + b)) * 2 powi (- 1)"
  from False have pos: "0 < int (a + b)" by (simp del: of_nat_add)
  from assms have "int (a + b) < int (2 ^ 53)" by (simp only: of_nat_less_iff)
  then have lt: "int (a + b) < 2 ^ 53" by simp
  then have "(of_int (int (a + b)) :: rat) < of_int (2 ^ 53)" by (simp only: of_int_less_iff)
  then have "(of_int (int (a + b)) :: rat) * 2 powi (- 1) < 2 ^ 53 * 2 powi (- 1)"
    by (intro mult_strict_right_mono) simp_all
  also have "\<dots> \<le> 2 powi 1024" by (simp add: power_int_minus)
  finally have "round_double (of_int (int (a + b)) * 2 powi (- 1)) =
      Fin (of_int (int (a + b)) * 2 powi (- 1))"
    by (intro round_double_exact pos lt) simp_all
  then have exact: "round_double x = Fin x" by (simp only: x_def)
  have sum: "(of_nat a / 2 + of_nat b / 2 :: rat) = x"
    by (simp add: x_def power_int_minus field_simps)
  have res: "x = of_nat (a + b) / 2"
    by (simp add: x_def power_int_minus field_simps)
  have nz: "x \<noteq> 0" using pos by (simp add: x_def del: of_nat_add)
  have "js_add (Fin (of_nat a / 2)) (Fin (of_nat b / 2)) = (if x = 0 then Fin 0 else round_double x)"
    unfolding sum [symmetric] by (simp add: js_add_def is_infinite_def)
  also have "\<dots> = Fin x" using nz exact by simp
  finally show ?thesis by (simp only: res)
qed

lemma js_div_unit: "js_div (Fin 1) (Fin 1) = Fin 1"
  using round_double_of_nat [of 1] by (simp add: js_div_finite)

lemma js_div_half: "js_div (Fin 1) (Fin 2) = Fin (1 / 2)"
  using round_double_exact [of 1 "- 1"] by (simp add: js_div_finite power_int_minus)

lemma js_div_four_halves: "js_div (Fin 4) (Fin 2) = Fin 2"
  using round_double_of_nat [of 2] by (simp add: js_div_finite)

lemma js_mul_three_halves: "js_mul (Fin (3 / 2)) (Fin 1) = Fin (3 / 2)"
  using round_double_exact [of 3 "- 1"]
  by (simp add: js_mul_def is_infinite_def is_zero_def power_int_minus)

lemmas half_sums =
  js_add_halves [of 0 1, simplified] js_add_halves [of 1 1, simplified]
  js_add_halves [of 2 1, simplified] js_add_halves [of 3 1, simplified]

lemmas more_products = js_mul_nat [of 2 2, simplified] js_mul_nat [of 1 10, simplified]

lemma tenth: "js_div (Fin 1) (Fin 10) = Fin (7205759403792794 / 2 ^ 56)"
proof -
  have "round_double (1 / 10) =
      (let ulp = 2 powi (max (- 4) (- 1022) - 52);
           y = of_int (round_half_even ((1 / 10) / ulp)) * ulp
       in if 2 powi 1024 \<le> y then PInf else if y = 0 then Fin 0 else Fin y)"
    by (rule round_double_pos) (simp_all add: power_int_minus)
  then have "round_double (1 / 10) = Fin (7205759403792794 / 2 ^ 56)"
    by (simp add: round_half_even_def Let_def floor_rat_numeral power_int_minus)
  then show ?thesis by (simp add: js_div_finite)
qed

lemma one_tenth: "js_add (Fin 0) (Fin (7205759403792794 / 2 ^ 56)) = Fin (7205759403792794 / 2 ^ 56)"
proof -
  have "round_double (7205759403792794 / 2 ^ 56) =
      (let ulp = 2 powi (max (- 4) (- 1022) - 52);
           y = of_int (round_half_even ((7205759403792794 / 2 ^ 56) / ulp)) * ulp
       in if 2 powi 1024 \<le> y then PInf else if y = 0 then Fin 0 else Fin y)"
    by (rule round_double_pos) (simp_all add: power_int_minus)
  then have "round_double (7205759403792794 / 2 ^ 56) = Fin (7205759403792794 / 2 ^ 56)"
    by (simp add: round_half_even_def Let_def floor_rat_numeral power_int_minus)
  then show ?thesis by (simp add: js_add_def is_infinite_def)
qed

lemma two_tenths:
  "js_add (Fin (7205759403792794 / 2 ^ 56)) (Fin (7205759403792794 / 2 ^ 56)) =
   Fin (7205759403792794 / 2 ^ 55)"
proof -
  have "round_double (7205759403792794 / 2 ^ 56 + 7205759403792794 / 2 ^ 56) =
      (let ulp = 2 powi (max (- 3) (- 1022) - 52);
           y = of_int (round_half_even
                 ((7205759403792794 / 2 ^ 56 + 7205759403792794 / 2 ^ 56) / ulp)) * ulp
       in if 2 powi 1024 \<le> y then PInf else if y = 0 then Fin 0 else Fin y)"
    by (rule round_double_pos) (simp_all add: power_int_minus)
  then have "round_double (7205759403792794 / 2 ^ 56 + 7205759403792794 / 2 ^ 56) =
      Fin (7205759403792794 / 2 ^ 55)"
    by (simp add: round_half_even_def Let_def floor_rat_numeral power_int_minus)
  then show ?thesis by (simp add: js_add_def is_infinite_def)
qed

lemma three_tenths_sum:
  "js_add (Fin (7205759403792794 / 2 ^ 55)) (Fin (7205759403792794 / 2 ^ 56)) =
   Fin (5404319552844596 / 2 ^ 54)"
proof -
  have "round_double (7205759403792794 / 2 ^ 55 + 7205759403792794 / 2 ^ 56) =
      (let ulp = 2 powi (max (- 2) (- 1022) - 52);
           y = of_int (round_half_even
                 ((7205759403792794 / 2 ^ 55 + 7205759403792794 / 2 ^ 56) / ulp)) * ulp
       in if 2 powi 1024 \<le> y then PInf else if y = 0 then Fin 0 else Fin y)"
    by (rule round_double_pos) (simp_all add: power_int_minus)
  then have "round_double (7205759403792794 / 2 ^ 55 + 7205759403792794 / 2 ^ 56) =
      Fin (5404319552844596 / 2 ^ 54)"
    by (simp add: round_half_even_def Let_def floor_rat_numeral power_int_minus)
  then show ?thesis by (simp add: js_add_def is_infinite_def)
qed

lemma three_tenths: "js_div (Fin 3) (Fin 10) = Fin (5404319552844595 / 2 ^ 54)"
proof -
  have "round_double (3 / 10) =
      (let ulp = 2 powi (max (- 2) (- 1022) - 52);
           y = of_int (round_half_even ((3 / 10) / ulp)) * ulp
       in if 2 powi 1024 \<le> y then PInf else if y = 0 then Fin 0 else Fin y)"
    by (rule round_double_pos) (simp_all add: power_int_minus)
  then have "round_double (3 / 10) = Fin (5404319552844595 / 2 ^ 54)"
    by (simp add: round_half_even_def Let_def floor_rat_numeral power_int_minus)
  then show ?thesis by (simp add: js_div_finite)
qed

lemma three_frames_at_ten:
  "frame (run [Start 0, Step, Step] (recorder (Fin 1) (Fin 10))) = Some (Fin 3)"
  "frameRate (run [Start 0, Step, Step] (recorder (Fin 1) (Fin 10))) = Some (Fin 10)"
  "time (run [Start 0, Step, Step] (recorder (Fin 1) (Fin 10))) =
     Some (js_add (js_add (js_add (Fin 0) (js_div (Fin 1) (Fin 10))) (js_div (Fin 1) (Fin 10)))
       (js_div (Fin 1) (Fin 10)))"
  by (simp_all add: defs small_sums more_products js_lt_Fin)

lemma drift_at_ten:
  "time (run [Start 0, Step, Step] (recorder (Fin 1) (Fin 10))) =
     Some (Fin (5404319552844596 / 2 ^ 54))"
  unfolding three_frames_at_ten tenth one_tenth two_tenths three_tenths_sum ..

text \<open>
  C3, as stated: false on both counts. With a duration of 1.5 s at 1 frame per second
  \<open>frameTotal\<close> is 1.5 and the second step leaves \<open>frame\<close> at 2, above it. With 1 s
  at 10 frames per second, the third frame leaves \<open>time\<close> at
  \<open>0.1 + 0.1 + 0.1 = 0.30000000000000004\<close>, which is not \<open>3 / 10\<close>.
\<close>

theorem timing_invariant_counterexample:
  "\<not> spec_timing_invariant (run [Start 0, Step] (recorder (Fin (3 / 2)) (Fin 1))) \<and>
   \<not> spec_timing_invariant (run [Start 0, Step, Step] (recorder (Fin 1) (Fin 10)))"
proof
  show "\<not> spec_timing_invariant (run [Start 0, Step] (recorder (Fin (3 / 2)) (Fin 1)))"
    by (simp add: spec_timing_invariant_def js_le_def defs small_sums js_mul_three_halves
        js_div_unit js_lt_Fin)
  have "\<not> js_eq (Fin (5404319552844596 / 2 ^ 54)) (Fin (5404319552844595 / 2 ^ 54))"
    by (simp add: js_eq_def js_lt_Fin)
  then show "\<not> spec_timing_invariant (run [Start 0, Step, Step] (recorder (Fin 1) (Fin 10)))"
    unfolding spec_timing_invariant_def drift_at_ten three_frames_at_ten(1,2)
    by (simp only: toNumber.simps three_tenths) simp
qed

text \<open>
  C3, amended: after \<open>init()\<close> (alone or within \<open>start()\<close>) and after every later call,
  \<open>frame\<close> is a whole number \<open>k\<close> from 0 to \<open>2 ^ 53\<close> with \<open>k = 0\<close> or
  \<open>k - 1 < frameTotal\<close>, where \<open>frameTotal\<close> is the double \<open>duration * frameRate\<close>;
  \<open>frame \<le> frameTotal\<close>, the invariant of the specification, holds whenever
  \<open>frameTotal\<close> is 0 or more and a whole number or Infinity. \<open>deltaTime\<close> is the double
  \<open>1 / frameRate\<close> and, below \<open>2 ^ 53\<close> frames, \<open>time\<close> is the result of adding it
  \<open>k\<close> times to 0, each addition rounded: once per encoded frame. For a finite frame
  rate above 0 and up to \<open>2 ^ 1021\<close> that sum is Infinity or within the factors
  \<open>(1 - 2\<^sup>-\<^sup>5\<^sup>3) ^ (k + 1)\<close> and \<open>(1 + 2\<^sup>-\<^sup>5\<^sup>3) ^ (k + 1)\<close> of \<open>k / frameRate\<close>.
\<close>

theorem timing_invariant_after_init:
  assumes "calls_init c"
  shows "\<exists>k \<le> 2 ^ 53.
     frame (run (c # cs) r) = Some (Fin (of_nat k)) \<and>
     js_le (Fin 0) (toNumber (frame (run (c # cs) r))) \<and>
     (k = 0 \<or> js_lt (Fin (of_nat (k - 1))) (toNumber (frameTotal (run (c # cs) r)))) \<and>
     (js_le (Fin 0) (toNumber (frameTotal (run (c # cs) r))) \<and>
      whole_or_infinite (toNumber (frameTotal (run (c # cs) r))) \<longrightarrow>
        js_le (toNumber (frame (run (c # cs) r))) (toNumber (frameTotal (run (c # cs) r)))) \<and>
     frameTotal (run (c # cs) r) =
       Some (js_mul (toNumber (duration (run (c # cs) r))) (toNumber (frameRate (run (c # cs) r)))) \<and>
     deltaTime (run (c # cs) r) = Some (js_div (Fin 1) (toNumber (frameRate (run (c # cs) r)))) \<and>
     (k < 2 ^ 53 \<longrightarrow>
        time (run (c # cs) r) =
          Some (time_after k (js_div (Fin 1) (toNumber (frameRate (run (c # cs) r)))))) \<and>
     (k < 2 ^ 53 \<and> frameRate (run (c # cs) r) = Some (Fin fr) \<and> 0 < fr \<and> fr \<le> 2 ^ 1021 \<longrightarrow>
        time (run (c # cs) r) = Some PInf \<or>
        (\<exists>t. time (run (c # cs) r) = Some (Fin t) \<and>
             of_nat k / fr * (1 - 1 / 2 ^ 53) ^ (k + 1) \<le> t \<and>
             t \<le> of_nat k / fr * (1 + 1 / 2 ^ 53) ^ (k + 1)))"
proof -
  have "timing_inv (fst (exec c r))" using assms by (rule exec_init_timing)
  then have "timing_inv (run (c # cs) r)" by (simp add: run_timing)
  then show ?thesis by (rule timing_inv_view)
qed

theorem timing_invariant_after_init_witness:
  "calls_init (Start 0) \<and>
   frame (run [Start 0, Step, Step, Step, Step] (recorder (Fin 2) (Fin 2))) = Some (Fin 4) \<and>
   frameTotal (run [Start 0, Step, Step, Step, Step] (recorder (Fin 2) (Fin 2))) = Some (Fin 4) \<and>
   deltaTime (run [Start 0, Step, Step, Step, Step] (recorder (Fin 2) (Fin 2))) = Some (Fin (1 / 2)) \<and>
   time (run [Start 0, Step, Step, Step, Step] (recorder (Fin 2) (Fin 2))) = Some (Fin 2) \<and>
   spec_timing_invariant (run [Start 0, Step, Step, Step, Step] (recorder (Fin 2) (Fin 2)))"
proof -
  have h: "calls_init (Start 0)" by simp
  have v: "frame (run [Start 0, Step, Step, Step, Step] (recorder (Fin 2) (Fin 2))) = Some (Fin 4)"
    "frameTotal (run [Start 0, Step, Step, Step, Step] (recorder (Fin 2) (Fin 2))) = Some (Fin 4)"
    "deltaTime (run [Start 0, Step, Step, Step, Step] (recorder (Fin 2) (Fin 2))) =
       Some (Fin (1 / 2))"
    "time (run [Start 0, Step, Step, Step, Step] (recorder (Fin 2) (Fin 2))) = Some (Fin 2)"
    "frameRate (run [Start 0, Step, Step, Step, Step] (recorder (Fin 2) (Fin 2))) = Some (Fin 2)"
    by (simp_all add: defs small_sums more_products half_sums js_div_half js_lt_Fin)
  have s: "spec_timing_invariant (run [Start 0, Step, Step, Step, Step] (recorder (Fin 2) (Fin 2)))"
    unfolding spec_timing_invariant_def v
    by (simp add: js_le_def js_eq_def js_lt_Fin js_div_four_halves)
  from timing_invariant_after_init
    [OF h, of "[Step, Step, Step, Step]" "recorder (Fin 2) (Fin 2)" 2]
  show ?thesis by - (intro conjI h v(1-4) s)
qed

subsection \<open>A full recording\<close>

lemma step_finished:
  assumes "finished r"
  shows "finished (fst (step r))"
proof (cases "status r = RecorderStatus ''Recording'' \<and>
         js_lt (toNumber (frame r)) (toNumber (frameTotal r))")
  case True
  with step_then [of r] have "status (fst (step r)) = RecorderStatus ''Recording''"
    by (simp add: view_def)
  then show ?thesis by (simp add: finished_def status_values)
next
  case False
  show ?thesis
  proof (cases "status r = RecorderStatus ''Recording''")
    case True
    with False show ?thesis by (simp add: finished_def step_else stop_fields)
  next
    case r: False
    then have "fst (stop r) = r" by (simp add: stop_def)
    with False assms show ?thesis by (simp add: step_else)
  qed
qed

lemma run_steps_finished: "finished r \<Longrightarrow> finished (run (replicate n Step) r)"
  by (induction n arbitrary: r) (simp_all add: fst_outcome step_finished)

lemma run_steps_timing: "timing_inv r \<Longrightarrow> timing_inv (run (replicate n Step) r)"
  by (induction n arbitrary: r) (simp_all add: fst_outcome step_timing)

lemma start_finished: "finished (fst (start now r))"
proof -
  have "finished (arm now (fst (init r)))"
    using arm_fields(1) [of now "fst (init r)"] by (simp add: finished_def view_def status_values)
  then have "finished (fst (step (arm now (fst (init r)))))" by (rule step_finished)
  moreover have "status (fst (init r)) = Some 1 \<Longrightarrow> finished (fst (init r))"
    by (simp add: finished_def status_values)
  ultimately show ?thesis using start_state [of now r] by auto
qed

lemma round_half_even_le:
  assumes "q \<le> of_int n"
  shows "round_half_even q \<le> n"
proof -
  from round_half_even_error [of q] have "of_int (round_half_even q) \<le> q + 1 / 2" by linarith
  with assms have "(of_int (round_half_even q) :: rat) < of_int (n + 1)" by simp
  then have "round_half_even q < n + 1" by (simp only: of_int_less_iff)
  then show ?thesis by simp
qed

lemma round_double_small:
  assumes "0 < x" "x < 2 powi (- 1022)" "round_double x = Fin q"
  shows "q < 1"
proof -
  define e where "e = exponent x"
  from exponent_bounds [OF assms(1)] have b: "2 powi e \<le> x" "x < 2 powi (e + 1)"
    by (simp_all add: e_def)
  from b(1) assms(2) have "(2::rat) powi e < 2 powi (- 1022)" by linarith
  then have "e < - 1022" by (simp only: pow2_less_iff)
  then have m: "max e (- 1022) - 52 = - 1074" by simp
  define ulp :: rat where "ulp = 2 powi (- 1074)"
  define y where "y = of_int (round_half_even (x / ulp)) * ulp"
  have ulp: "0 < ulp" by (simp add: ulp_def)
  have r: "round_double x = (if 2 powi 1024 \<le> y then PInf else if y = 0 then Fin 0 else Fin y)"
    using round_double_pos [OF assms(1) b] unfolding m by (simp add: Let_def ulp_def y_def)
  have "(2::rat) powi (- 1022) = 2 powi 52 * 2 powi (- 1074)"
    using power_int_add [of "2::rat" 52 "- 1074"] by simp
  with assms(2) have "x < 2 powi 52 * ulp" by (simp only: ulp_def)
  with ulp have "x / ulp < 2 powi 52" by (simp add: pos_divide_less_eq)
  then have "x / ulp \<le> of_int (2 ^ 52)" by simp
  then have "round_half_even (x / ulp) \<le> 2 ^ 52" by (rule round_half_even_le)
  then have "(of_int (round_half_even (x / ulp)) :: rat) \<le> of_int (2 ^ 52)"
    by (simp only: of_int_le_iff)
  with ulp have "y \<le> of_int (2 ^ 52) * ulp" unfolding y_def by (intro mult_right_mono) simp_all
  also have "of_int (2 ^ 52) * ulp = 2 powi (- 1022)"
    using power_int_add [of "2::rat" 52 "- 1074"] by (simp add: ulp_def)
  also have "\<dots> < 1" by (simp add: power_int_minus field_simps)
  finally have "y < 1" .
  with r assms(3) show ?thesis by (auto split: if_splits)
qed

lemma js_mul_rel:
  assumes "js_mul (Fin d) (Fin fr) = Fin (of_nat N)" "0 < N" "0 < d" "0 < fr"
  shows "d * (1 - 1 / 2 ^ 53) \<le> of_nat N / fr" "of_nat N / fr \<le> d * (1 + 1 / 2 ^ 53)"
proof -
  define x where "x = d * fr"
  have xpos: "0 < x" using assms(3,4) by (simp add: x_def)
  from assms(1,3,4) have r: "round_double x = Fin (of_nat N)"
    by (simp add: js_mul_def is_infinite_def is_zero_def x_def)
  have big: "2 powi (- 1022) \<le> x"
  proof (rule ccontr)
    assume "\<not> 2 powi (- 1022) \<le> x"
    then have "x < 2 powi (- 1022)" by simp
    from round_double_small [OF xpos this r] have "(of_nat N :: rat) < of_nat 1" by simp
    then have "N < 1" by (simp only: of_nat_less_iff)
    with assms(2) show False by simp
  qed
  from round_double_rel [OF big] r
  have "x * (1 - 1 / 2 ^ 53) \<le> of_nat N" "of_nat N \<le> x * (1 + 1 / 2 ^ 53)"
    by auto
  then have "d * (1 - 1 / 2 ^ 53) * fr \<le> of_nat N" "of_nat N \<le> d * (1 + 1 / 2 ^ 53) * fr"
    by (simp_all add: x_def mult.assoc mult.left_commute mult.commute)
  with assms(4) show "d * (1 - 1 / 2 ^ 53) \<le> of_nat N / fr"
    "of_nat N / fr \<le> d * (1 + 1 / 2 ^ 53)"
    by (simp_all add: pos_le_divide_eq pos_divide_le_eq)
qed

lemma full_time_bound:
  assumes "js_mul (Fin d) (Fin fr) = Fin (of_nat N)" "0 < N" "0 < d" "0 < fr" "fr \<le> 2 ^ 1021"
  shows "time_after N (js_div (Fin 1) (Fin fr)) = PInf \<or>
         (\<exists>t. time_after N (js_div (Fin 1) (Fin fr)) = Fin t \<and>
              d * (1 - 1 / 2 ^ 53) ^ (N + 2) \<le> t \<and> t \<le> d * (1 + 1 / 2 ^ 53) ^ (N + 2))"
proof -
  define lo :: rat where "lo = 1 - 1 / 2 ^ 53"
  define hi :: rat where "hi = 1 + 1 / 2 ^ 53"
  have lo: "0 \<le> lo" and hi: "0 \<le> hi" by (simp_all add: lo_def hi_def)
  from js_mul_rel [OF assms(1-4)] have m: "d * lo \<le> of_nat N / fr" "of_nat N / fr \<le> d * hi"
    by (simp_all add: lo_def hi_def)
  from time_after_frameRate_bound [OF assms(4,5), of N] show ?thesis
  proof
    assume "time_after N (js_div (Fin 1) (Fin fr)) = PInf"
    then show ?thesis by simp
  next
    assume "\<exists>t. time_after N (js_div (Fin 1) (Fin fr)) = Fin t \<and>
              of_nat N / fr * (1 - 1 / 2 ^ 53) ^ (N + 1) \<le> t \<and>
              t \<le> of_nat N / fr * (1 + 1 / 2 ^ 53) ^ (N + 1)"
    then obtain t where t: "time_after N (js_div (Fin 1) (Fin fr)) = Fin t"
      "of_nat N / fr * lo ^ (N + 1) \<le> t" "t \<le> of_nat N / fr * hi ^ (N + 1)"
      by (auto simp: lo_def hi_def)
    have "d * lo * lo ^ (N + 1) \<le> of_nat N / fr * lo ^ (N + 1)"
      using m(1) lo by (intro mult_right_mono) simp_all
    with t(2) have "d * lo * lo ^ (N + 1) \<le> t" by linarith
    moreover have "d * lo * lo ^ (N + 1) = d * lo ^ (N + 2)" by simp
    ultimately have l: "d * lo ^ (N + 2) \<le> t" by simp
    have "of_nat N / fr * hi ^ (N + 1) \<le> d * hi * hi ^ (N + 1)"
      using m(2) hi by (intro mult_right_mono) simp_all
    with t(3) have "t \<le> d * hi * hi ^ (N + 1)" by linarith
    moreover have "d * hi * hi ^ (N + 1) = d * hi ^ (N + 2)" by simp
    ultimately have h: "t \<le> d * hi ^ (N + 2)" by simp
    from t(1) l h show ?thesis by (simp add: lo_def hi_def)
  qed
qed

lemma js_mul_half_three: "js_mul (Fin (1 / 2)) (Fin 3) = Fin (3 / 2)"
  using round_double_exact [of 3 "- 1"]
  by (simp add: js_mul_def is_infinite_def is_zero_def power_int_minus)

text \<open>
  C1, as stated: false when \<open>duration * frameRate\<close> is not a whole number. Half a
  second at 3 frames per second gives a \<open>frameTotal\<close> of 1.5; the recording stops by
  itself at the third step with \<open>frame\<close> at 2.
\<close>

theorem full_recording_counterexample:
  "status (run [Start 0, Step, Step] (recorder (Fin (1 / 2)) (Fin 3))) =
     RecorderStatus ''Stopped'' \<and>
   frame (run [Start 0, Step, Step] (recorder (Fin (1 / 2)) (Fin 3))) = Some (Fin 2) \<and>
   frameTotal (run [Start 0, Step, Step] (recorder (Fin (1 / 2)) (Fin 3))) = Some (Fin (3 / 2)) \<and>
   \<not> js_eq (toNumber (frame (run [Start 0, Step, Step] (recorder (Fin (1 / 2)) (Fin 3)))))
       (toNumber (frameTotal (run [Start 0, Step, Step] (recorder (Fin (1 / 2)) (Fin 3)))))"
  by (simp add: js_eq_def defs small_sums js_mul_half_three js_lt_Fin)

text \<open>
  C1, amended: \<open>init()\<close> sets \<open>frameTotal\<close> to the double \<open>duration * frameRate\<close>,
  whatever the pair. Whenever that double is a whole number \<open>N\<close> below \<open>2 ^ 53\<close>, a
  recording started by \<open>start()\<close> and stepped until it has stopped by itself ends with
  \<open>frame == frameTotal == N\<close>, and with \<open>time\<close> the sum of \<open>N\<close> rounded additions of
  \<open>deltaTime\<close>; steps that reject on the way do not change this. For a finite duration
  above 0, a frame rate above 0 and up to \<open>2 ^ 1021\<close>, and \<open>N\<close> at least 1, that time
  is Infinity or within the factors \<open>(1 - 2\<^sup>-\<^sup>5\<^sup>3) ^ (N + 2)\<close> and
  \<open>(1 + 2\<^sup>-\<^sup>5\<^sup>3) ^ (N + 2)\<close> of \<open>duration\<close>: the distance grows with the number of
  frames.
\<close>

theorem full_recording_totals:
  assumes "js_mul (toNumber (duration r0)) (toNumber (frameRate r0)) = Fin (of_nat N)"
    and "N < 2 ^ 53"
    and "status (run (Start now # replicate n Step) r0) = RecorderStatus ''Stopped''"
  shows "frameTotal (fst (init r)) =
           Some (js_mul (toNumber (duration r)) (toNumber (frameRate r))) \<and>
         frameTotal (run (Start now # replicate n Step) r0) = Some (Fin (of_nat N)) \<and>
         frame (run (Start now # replicate n Step) r0) = Some (Fin (of_nat N)) \<and>
         js_eq (toNumber (frame (run (Start now # replicate n Step) r0)))
           (toNumber (frameTotal (run (Start now # replicate n Step) r0))) \<and>
         time (run (Start now # replicate n Step) r0) =
           Some (time_after N (js_div (Fin 1) (toNumber (frameRate r0)))) \<and>
         (0 < N \<and> duration r0 = Some (Fin d) \<and> 0 < d \<and>
          frameRate r0 = Some (Fin fr) \<and> 0 < fr \<and> fr \<le> 2 ^ 1021 \<longrightarrow>
            time (run (Start now # replicate n Step) r0) = Some PInf \<or>
            (\<exists>t. time (run (Start now # replicate n Step) r0) = Some (Fin t) \<and>
                 d * (1 - 1 / 2 ^ 53) ^ (N + 2) \<le> t \<and> t \<le> d * (1 + 1 / 2 ^ 53) ^ (N + 2)))"
proof -
  define r1 where "r1 = run (Start now # replicate n Step) r0"
  have r1: "r1 = run (replicate n Step) (fst (start now r0))"
    by (simp add: r1_def fst_outcome)
  have inv: "timing_inv r1" unfolding r1 using start_timing by (rule run_steps_timing)
  have fields: "frameRate r1 = frameRate r0" "duration r1 = duration r0"
    unfolding r1_def by (rule run_fields)+
  have "finished r1" unfolding r1 using start_finished by (rule run_steps_finished)
  with assms(3) have stopped: "\<not> js_lt (toNumber (frame r1)) (toNumber (frameTotal r1))"
    by (simp add: finished_def r1_def)
  from timing_invD(1) [OF inv] obtain k :: nat where kk: "k \<le> 2 ^ 53 \<and>
    frame r1 = Some (Fin (of_nat k)) \<and>
    (k < 2 ^ 53 \<longrightarrow> time r1 = Some (time_after k (js_div (Fin 1) (toNumber (frameRate r1))))) \<and>
    (k = 0 \<or> js_lt (Fin (of_nat (k - 1)))
                (js_mul (toNumber (duration r1)) (toNumber (frameRate r1))))" ..
  note k = kk [THEN conjunct1] kk [THEN conjunct2, THEN conjunct1]
    kk [THEN conjunct2, THEN conjunct2, THEN conjunct1]
    kk [THEN conjunct2, THEN conjunct2, THEN conjunct2]
  have total: "frameTotal r1 = Some (Fin (of_nat N))"
    using timing_invD(3) [OF inv] assms(1) by (simp only: fields)
  from stopped k(2) total have "\<not> (of_nat k :: rat) < of_nat N" by (simp add: js_lt_Fin)
  then have "N \<le> k" by simp
  moreover from k(4) have "k \<le> N"
  proof
    assume "k = 0"
    then show ?thesis by simp
  next
    assume "js_lt (Fin (of_nat (k - 1)))
        (js_mul (toNumber (duration r1)) (toNumber (frameRate r1)))"
    with assms(1) have "(of_nat (k - 1) :: rat) < of_nat N" by (simp add: fields js_lt_Fin)
    then have "k - 1 < N" by (simp only: of_nat_less_iff)
    then show ?thesis by simp
  qed
  ultimately have kN: "k = N" by simp
  have fr: "frame r1 = Some (Fin (of_nat N))" using k(2) kN by simp
  have eq: "js_eq (toNumber (frame r1)) (toNumber (frameTotal r1))"
    by (simp add: fr total js_eq_def js_lt_Fin)
  have tm: "time r1 = Some (time_after N (js_div (Fin 1) (toNumber (frameRate r0))))"
    using k(3) kN assms(2) by (simp add: fields)
  have bound: "0 < N \<and> duration r0 = Some (Fin d) \<and> 0 < d \<and>
          frameRate r0 = Some (Fin fr) \<and> 0 < fr \<and> fr \<le> 2 ^ 1021 \<longrightarrow>
            time r1 = Some PInf \<or>
            (\<exists>t. time r1 = Some (Fin t) \<and>
                 d * (1 - 1 / 2 ^ 53) ^ (N + 2) \<le> t \<and> t \<le> d * (1 + 1 / 2 ^ 53) ^ (N + 2))"
  proof
    assume h: "0 < N \<and> duration r0 = Some (Fin d) \<and> 0 < d \<and>
          frameRate r0 = Some (Fin fr) \<and> 0 < fr \<and> fr \<le> 2 ^ 1021"
    with assms(1) have "js_mul (Fin d) (Fin fr) = Fin (of_nat N)" by simp
    moreover from h have "0 < N" "0 < d" "0 < fr" "fr \<le> 2 ^ 1021" by simp_all
    ultimately have "time_after N (js_div (Fin 1) (Fin fr)) = PInf \<or>
         (\<exists>t. time_after N (js_div (Fin 1) (Fin fr)) = Fin t \<and>
              d * (1 - 1 / 2 ^ 53) ^ (N + 2) \<le> t \<and> t \<le> d * (1 + 1 / 2 ^ 53) ^ (N + 2))"
      by (rule full_time_bound)
    moreover from h tm have "time r1 = Some (time_after N (js_div (Fin 1) (Fin fr)))" by simp
    ultimately show "time r1 = Some PInf \<or>
            (\<exists>t. time r1 = Some (Fin t) \<and>
                 d * (1 - 1 / 2 ^ 53) ^ (N + 2) \<le> t \<and> t \<le> d * (1 + 1 / 2 ^ 53) ^ (N + 2))"
      by simp
  qed
  have tot0: "frameTotal (fst (init r)) =
           Some (js_mul (toNumber (duration r)) (toNumber (frameRate r)))"
    by (simp add: init_fields)
  show ?thesis
    unfolding r1_def [symmetric] by (intro conjI tot0 total fr eq tm bound)
qed

theorem full_recording_totals_witness:
  "js_mul (toNumber (duration (recorder (Fin 2) (Fin 2))))
     (toNumber (frameRate (recorder (Fin 2) (Fin 2)))) = Fin (of_nat 4) \<and>
   (4 :: nat) < 2 ^ 53 \<and>
   status (run (Start 0 # replicate 4 Step) (recorder (Fin 2) (Fin 2))) =
     RecorderStatus ''Stopped'' \<and>
   frame (run (Start 0 # replicate 4 Step) (recorder (Fin 2) (Fin 2))) = Some (Fin 4) \<and>
   time (run (Start 0 # replicate 4 Step) (recorder (Fin 2) (Fin 2))) = Some (Fin 2) \<and>
   duration (run (Start 0 # replicate 4 Step) (recorder (Fin 2) (Fin 2))) = Some (Fin 2)"
proof -
  have h: "js_mul (toNumber (duration (recorder (Fin 2) (Fin 2))))
     (toNumber (frameRate (recorder (Fin 2) (Fin 2)))) = Fin (of_nat 4)"
    "(4 :: nat) < 2 ^ 53"
    by (simp_all add: defs more_products)
  have four: "replicate 4 Step = [Step, Step, Step, Step]" by (simp add: numeral_eq_Suc)
  have s: "status (run (Start 0 # replicate 4 Step) (recorder (Fin 2) (Fin 2))) =
     RecorderStatus ''Stopped''"
    unfolding four by (simp add: defs small_sums more_products half_sums js_div_half js_lt_Fin)
  have v: "frame (run (Start 0 # replicate 4 Step) (recorder (Fin 2) (Fin 2))) = Some (Fin 4)"
    "time (run (Start 0 # replicate 4 Step) (recorder (Fin 2) (Fin 2))) = Some (Fin 2)"
    "duration (run (Start 0 # replicate 4 Step) (recorder (Fin 2) (Fin 2))) = Some (Fin 2)"
    unfolding four
    by (simp_all add: defs small_sums more_products half_sums js_div_half js_lt_Fin)
  from full_recording_totals [OF h s, of "recorder (Fin 2) (Fin 2)" 2 2]
  show ?thesis by - (intro conjI h s v)
qed

subsection \<open>Infinite duration\<close>

lemma step_unbounded:
  assumes "status r = RecorderStatus ''Recording''" "frameTotal r = Some PInf" "timing_inv r"
  shows "view (fst (step r)) = view r \<and> frameTotal (fst (step r)) = Some PInf \<and>
         timing_inv (fst (step r))"
proof -
  from timing_invD(1) [OF assms(3)] obtain k :: nat where "k \<le> 2 ^ 53 \<and>
    frame r = Some (Fin (of_nat k)) \<and>
    (k < 2 ^ 53 \<longrightarrow> time r = Some (time_after k (js_div (Fin 1) (toNumber (frameRate r))))) \<and>
    (k = 0 \<or> js_lt (Fin (of_nat (k - 1)))
                (js_mul (toNumber (duration r)) (toNumber (frameRate r))))" ..
  then have "frame r = Some (Fin (of_nat k))" by (rule conjunct2 [THEN conjunct1])
  with assms(2) have "js_lt (toNumber (frame r)) (toNumber (frameTotal r))"
    by (simp add: js_lt_def)
  from step_then [OF assms(1) this] have "view (fst (step r)) = view r" by (rule conjunct1)
  moreover have "frameTotal (fst (step r)) = Some PInf" using assms(2) by (simp add: step_fields)
  moreover have "timing_inv (fst (step r))" using assms(3) by (rule step_timing)
  ultimately show ?thesis by (intro conjI)
qed

lemma run_steps_unbounded:
  assumes "status r = RecorderStatus ''Recording''" "frameTotal r = Some PInf" "timing_inv r"
  shows "view (run (replicate n Step) r) = view r"
  using assms
proof (induction n arbitrary: r)
  case 0
  then show ?case by simp
next
  case (Suc n)
  from step_unbounded [OF Suc.prems]
  have s: "view (fst (step r)) = view r" "frameTotal (fst (step r)) = Some PInf"
    "timing_inv (fst (step r))"
    by simp_all
  from s(1) Suc.prems(1) have "status (fst (step r)) = RecorderStatus ''Recording''"
    by (simp add: view_def)
  from Suc.IH [OF this s(2,3)] s(1) show ?case by (simp add: fst_outcome)
qed

lemma run_steps_idle:
  assumes "status r \<noteq> RecorderStatus ''Recording''"
  shows "run (replicate n Step) r = r"
proof (induction n)
  case 0
  show ?case by simp
next
  case (Suc n)
  from assms have "fst (step r) = r" by (simp add: step_else stop_def)
  with Suc show ?case by (simp add: fst_outcome)
qed

lemma js_mul_PInf: "js_lt (Fin 0) fr \<Longrightarrow> js_mul PInf fr = PInf"
  by (cases fr)
     (simp_all add: js_mul_def js_lt_def is_infinite_def is_zero_def infinity_def)

text \<open>
  C5, as stated: false when the frame rate is not above 0. With \<open>duration = Infinity\<close>
  and a frame rate of 0, \<open>frameTotal\<close> is \<open>Infinity * 0\<close>, which is NaN; the step that
  \<open>start()\<close> runs finds \<open>frame < frameTotal\<close> false and stops the recording.
\<close>

theorem infinite_duration_counterexample:
  "duration (recorder PInf (Fin 0)) = Some PInf \<and>
   frameTotal (run [Start 0] (recorder PInf (Fin 0))) = Some NaN \<and>
   status (run [Start 0] (recorder PInf (Fin 0))) = RecorderStatus ''Stopped'' \<and>
   RecorderStatus ''Stopping'' \<in> set (observed (trace (run [Start 0] (recorder PInf (Fin 0)))))"
  by (simp add: defs js_mul_def js_div_def js_lt_def is_infinite_def is_zero_def infinity_def)

text \<open>
  C5, amended: with \<open>duration = Infinity\<close> and a frame rate above 0, after \<open>start()\<close>
  and any number of \<open>step()\<close> calls the recorder is Recording (or still Initializing,
  when the encoder's \<open>init\<close> rejected) and the observer has been given nothing beyond
  Recording; an explicit \<open>stop()\<close> of a Recording session reports Stopping.
\<close>

theorem infinite_duration_never_self_stops:
  assumes "duration r0 = Some PInf" "frameRate r0 = Some fr" "js_lt (Fin 0) fr"
  shows "view (run (Start now # replicate n Step) r0) \<in>
           {(RecorderStatus ''Initializing'',
             observed (trace r0) @ [RecorderStatus ''Initializing'']),
            (RecorderStatus ''Recording'',
             observed (trace r0) @
               [RecorderStatus ''Initializing'', RecorderStatus ''Initialized'',
                RecorderStatus ''Recording''])} \<and>
         (status r = RecorderStatus ''Recording'' \<longrightarrow>
            view (fst (stop r)) \<in>
              {(RecorderStatus ''Stopping'', observed (trace r) @ [RecorderStatus ''Stopping'']),
               (RecorderStatus ''Stopped'',
                observed (trace r) @ [RecorderStatus ''Stopping'', RecorderStatus ''Stopped''])})"
proof -
  have r1: "run (Start now # replicate n Step) r0 = run (replicate n Step) (fst (start now r0))"
    by (simp add: fst_outcome)
  from start_state [of now r0]
  have "view (run (Start now # replicate n Step) r0) \<in>
          {(Some 1, observed (trace r0) @ [Some 1]),
           (Some 2, observed (trace r0) @ [Some 1, None, Some 2])}"
  proof
    assume a: "fst (start now r0) = fst (init r0) \<and> status (fst (init r0)) = Some 1"
    with init_outcome [of r0] have v: "view (fst (init r0)) = (Some 1, snd (view r0) @ [Some 1])"
      by (auto simp: view_def)
    from a have "status (fst (start now r0)) \<noteq> RecorderStatus ''Recording''"
      by (simp add: status_values)
    then have "run (replicate n Step) (fst (start now r0)) = fst (start now r0)"
      by (rule run_steps_idle)
    with a v show ?thesis unfolding r1 by (simp add: view_def)
  next
    assume a: "fst (start now r0) = fst (step (arm now (fst (init r0)))) \<and> snd (init r0) = Inr ()"
    with init_outcome [of r0]
    have v: "view (fst (init r0)) = (None, snd (view r0) @ [Some 1, None])" by auto
    define ra where "ra = arm now (fst (init r0))"
    have va: "view ra = (Some 2, snd (view r0) @ [Some 1, None, Some 2])"
      unfolding ra_def by (simp add: arm_fields v)
    then have sa: "status ra = RecorderStatus ''Recording''" by (simp add: view_def status_values)
    have ta: "frameTotal ra = Some PInf"
      unfolding ra_def using assms by (simp add: arm_fields init_fields js_mul_PInf)
    have ia: "timing_inv ra"
      unfolding ra_def using init_timing by (rule arm_timing)
    have "run (replicate n Step) (fst (start now r0)) = run (replicate (Suc n) Step) ra"
      using a by (simp add: ra_def fst_outcome)
    with run_steps_unbounded [OF sa ta ia, of "Suc n"] va show ?thesis
      unfolding r1 by (simp add: view_def)
  qed
  moreover have "view (fst (stop r)) \<in>
      {(Some 3, observed (trace r) @ [Some 3]), (Some 4, observed (trace r) @ [Some 3, Some 4])}"
    if "status r = RecorderStatus ''Recording''"
    using that view_stop [of r] by (auto simp: status_values view_def)
  ultimately show ?thesis by (simp add: status_values)
qed

theorem infinite_duration_never_self_stops_witness:
  "duration (recorder PInf (Fin 30)) = Some PInf \<and>
   frameRate (recorder PInf (Fin 30)) = Some (Fin 30) \<and>
   js_lt (Fin 0) (Fin 30) \<and>
   view (run (Start 0 # replicate 3 Step) (recorder PInf (Fin 30))) =
     (RecorderStatus ''Recording'',
      [RecorderStatus ''Ready'', RecorderStatus ''Initializing'', RecorderStatus ''Initialized'',
       RecorderStatus ''Recording'']) \<and>
   frame (run (Start 0 # replicate 3 Step) (recorder PInf (Fin 30))) = Some (Fin 4) \<and>
   view (fst (stop (run (Start 0 # replicate 3 Step) (recorder PInf (Fin 30))))) =
     (RecorderStatus ''Stopped'',
      [RecorderStatus ''Ready'', RecorderStatus ''Initializing'', RecorderStatus ''Initialized'',
       RecorderStatus ''Recording'', RecorderStatus ''Stopping'', RecorderStatus ''Stopped''])"
proof -
  have h: "duration (recorder PInf (Fin 30)) = Some PInf"
    "frameRate (recorder PInf (Fin 30)) = Some (Fin 30)"
    "js_lt (Fin 0) (Fin 30)"
    by (simp_all add: defs js_lt_Fin)
  have three: "replicate 3 Step = [Step, Step, Step]" by (simp add: numeral_3_eq_3)
  have p: "js_mul PInf (Fin 30) = PInf" by (rule js_mul_PInf) (simp add: js_lt_Fin)
  have v: "view (run (Start 0 # replicate 3 Step) (recorder PInf (Fin 30))) =
     (RecorderStatus ''Recording'',
      [RecorderStatus ''Ready'', RecorderStatus ''Initializing'', RecorderStatus ''Initialized'',
       RecorderStatus ''Recording''])"
    "frame (run (Start 0 # replicate 3 Step) (recorder PInf (Fin 30))) = Some (Fin 4)"
    "view (fst (stop (run (Start 0 # replicate 3 Step) (recorder PInf (Fin 30))))) =
     (RecorderStatus ''Stopped'',
      [RecorderStatus ''Ready'', RecorderStatus ''Initializing'', RecorderStatus ''Initialized'',
       RecorderStatus ''Recording'', RecorderStatus ''Stopping'', RecorderStatus ''Stopped''])"
    unfolding three by (simp_all add: view_def defs small_sums p js_lt_def)
  from infinite_duration_never_self_stops
    [where r = "run (Start 0 # replicate 3 Step) (recorder PInf (Fin 30))", OF h]
  show ?thesis by - (intro conjI h v)
qed

end
